theory Spec2Isabelle
  imports Main "HOL-Library.Word" "HOL-Library.AList"
begin

unbundle bit_operations_syntax

section \<open>The GT911 polling driver (driver.py)\<close>

text \<open>
  A shallow embedding of class \<open>GT911\<close>. Python integers are \<open>int\<close>. The instance
  (\<open>self\<close>) is a record that every method takes and returns. The two dictionaries
  \<open>__touchInfo\<close> and \<open>__previousTouchInfo\<close> are association lists in insertion order,
  which is the order of a Python dict: \<open>AList.update\<close> overwrites a key in place or
  appends it, \<open>AList.delete\<close> is \<open>del\<close>.

  The world outside the program is part of the record too: \<open>hw\<close> holds what the
  controller will answer, one reply per call of \<open>bus.i2c_rdwr\<close>, and \<open>trace\<close> is the
  chronological log of everything the driver does to the outside (bus transactions,
  events written to the virtual input device, sleeps). An exception is a value
  \<open>Inl (error, state at the raise)\<close>.
\<close>

subsection \<open>Data\<close>

type_synonym byte = "8 word"

text \<open>A register address, given high byte first, as in \<open>[0x81, 0x4E]\<close>.\<close>

type_synonym register = "int list"

datatype error = TransportError | AssertionError | KeyError | ValueError

datatype busReply = Nack | Ack "byte list"

datatype evcode =
  ABS_MT_SLOT | ABS_MT_TOUCH_MAJOR | ABS_MT_POSITION_X | ABS_MT_POSITION_Y
  | ABS_MT_TRACKING_ID | ABS_X | ABS_Y

datatype effect =
  I2CWrite int "int list"
  | I2CRead int nat
  | UiWrite evcode int
  | UiSyn
  | Sleep

text \<open>The value stored per track: \<open>{"x": x, "y": y, "size": size, "track": track}\<close>.\<close>

record info =
  info_x :: int
  info_y :: int
  info_size :: int
  info_track :: int

record gt911 =
  deviceAddress :: int
  flipX :: bool
  flipY :: bool
  swapXY :: bool
  scalingFactor :: int
  touchBoundary :: "int \<times> int"
  coordinateResolution :: "int \<times> int"
  touchInfo :: "(int \<times> info) list"
  previousTouchInfo :: "(int \<times> info) list"
  hw :: "busReply list"
  trace :: "effect list"

text \<open>
  What a method gives back: the exception with the state at the raise, or the returned
  value with the state at the return (\<open>run\<close> for a method that returns nothing).
\<close>

type_synonym 'a result = "(error \<times> gt911) + ('a \<times> gt911)"

type_synonym run = "(error \<times> gt911) + gt911"

text \<open>The registers of one touch point, an entry of \<open>__tpRegisterID\<close>.\<close>

record tpRegs =
  reg_track :: register
  reg_x :: "register list"
  reg_y :: "register list"
  reg_size :: "register list"

definition tpRegisterID :: "(nat \<times> tpRegs) list" where
  "tpRegisterID =
    [(0, \<lparr>reg_track = [0x81, 0x4F],
          reg_x = [[0x81, 0x50], [0x81, 0x51]],
          reg_y = [[0x81, 0x52], [0x81, 0x53]],
          reg_size = [[0x81, 0x54], [0x81, 0x55]]\<rparr>),
     (1, \<lparr>reg_track = [0x81, 0x57],
          reg_x = [[0x81, 0x58], [0x81, 0x59]],
          reg_y = [[0x81, 0x5A], [0x81, 0x5B]],
          reg_size = [[0x81, 0x5C], [0x81, 0x5D]]\<rparr>),
     (2, \<lparr>reg_track = [0x81, 0x5F],
          reg_x = [[0x81, 0x60], [0x81, 0x61]],
          reg_y = [[0x81, 0x62], [0x81, 0x63]],
          reg_size = [[0x81, 0x64], [0x81, 0x65]]\<rparr>),
     (3, \<lparr>reg_track = [0x81, 0x67],
          reg_x = [[0x81, 0x68], [0x81, 0x69]],
          reg_y = [[0x81, 0x6A], [0x81, 0x6B]],
          reg_size = [[0x81, 0x6C], [0x81, 0x6D]]\<rparr>),
     (4, \<lparr>reg_track = [0x81, 0x6F],
          reg_x = [[0x81, 0x70], [0x81, 0x71]],
          reg_y = [[0x81, 0x72], [0x81, 0x73]],
          reg_size = [[0x81, 0x74], [0x81, 0x75]]\<rparr>)]"

text \<open>
  The capabilities of the virtual touchscreen (\<open>self.caps\<close>, the \<open>EV_ABS\<close> entries):
  each axis with its \<open>AbsInfo(value, min, max, fuzz, flat, resolution)\<close>.
\<close>

record absInfo =
  abs_value :: int
  abs_min :: int
  abs_max :: int
  abs_fuzz :: int
  abs_flat :: int
  abs_resolution :: int

definition AbsInfo :: "int \<Rightarrow> int \<Rightarrow> int \<Rightarrow> int \<Rightarrow> int \<Rightarrow> int \<Rightarrow> absInfo" where
  "AbsInfo v lo hi fz fl r =
    \<lparr>abs_value = v, abs_min = lo, abs_max = hi, abs_fuzz = fz, abs_flat = fl,
     abs_resolution = r\<rparr>"

definition caps :: "gt911 \<Rightarrow> (evcode \<times> absInfo) list" where
  "caps st =
    [(ABS_MT_SLOT, AbsInfo 0 0 9 0 0 0),
     (ABS_MT_TOUCH_MAJOR, AbsInfo 0 0 255 0 0 0),
     (ABS_MT_POSITION_X, AbsInfo 0 0 (fst (coordinateResolution st)) 0 0 0),
     (ABS_MT_POSITION_Y, AbsInfo 0 0 (snd (coordinateResolution st)) 0 0 0),
     (ABS_MT_TRACKING_ID, AbsInfo 0 0 65535 0 0 0),
     (ABS_X, AbsInfo 0 0 (fst (coordinateResolution st)) 0 0 0),
     (ABS_Y, AbsInfo 0 0 (snd (coordinateResolution st)) 0 0 0)]"

subsection \<open>Register access\<close>

text \<open>
  One call of \<open>self.bus.i2c_rdwr\<close>: the transaction is logged, the controller's next
  reply is consumed, and a failed transaction (no acknowledge, or a controller that
  answers nothing any more) raises. A read returns the bytes of the reply.
\<close>

definition i2c_rdwr :: "effect \<Rightarrow> gt911 \<Rightarrow> (byte list) result" where
  "i2c_rdwr msg st =
    (let st1 = st\<lparr>trace := trace st @ [msg]\<rparr> in
     case hw st of
       [] \<Rightarrow> Inl (TransportError, st1)
     | Nack # rs \<Rightarrow> Inl (TransportError, st1\<lparr>hw := rs\<rparr>)
     | Ack bs # rs \<Rightarrow> Inr (bs, st1\<lparr>hw := rs\<rparr>))"

text \<open>
  The two constructors of a message. \<open>i2c_msg.write(address, buf)\<close> makes \<open>bytes(buf)\<close>,
  which raises \<open>ValueError\<close> for an element outside 0 to 255. The address of a message
  and the length of a read are unsigned 16-bit fields, which wrap around.
\<close>

definition i2c_msg_write :: "int \<Rightarrow> int list \<Rightarrow> error + effect" where
  "i2c_msg_write address buf =
    (if list_all (\<lambda>b. 0 \<le> b \<and> b < 256) buf then Inr (I2CWrite (address mod 65536) buf)
     else Inl ValueError)"

text \<open>An address that \<open>__readI2C\<close> takes and the bus sends: one byte at least, bytes only.\<close>

definition isAddress :: "register \<Rightarrow> bool" where
  "isAddress register \<longleftrightarrow> register \<noteq> [] \<and> list_all (\<lambda>b. 0 \<le> b \<and> b < 256) register"

text \<open>The length field of a message that reads \<open>len\<close> bytes.\<close>

definition msgLen :: "nat \<Rightarrow> nat" where
  "msgLen len = nat (int len mod 65536)"

definition i2c_msg_read :: "int \<Rightarrow> nat \<Rightarrow> effect" where
  "i2c_msg_read address len = I2CRead (address mod 65536) (msgLen len)"

text \<open>
  \<open>__writeI2C(register, data)\<close>. The type assertions hold by typing; \<open>data\<close> is the
  list that line 144 makes of a single integer, or the list given.
\<close>

definition writeI2C :: "register \<Rightarrow> int list \<Rightarrow> gt911 \<Rightarrow> run" where
  "writeI2C register data st =
    (let message = register @ data in
     case i2c_msg_write (deviceAddress st) message of
       Inl e \<Rightarrow> Inl (e, st)
     | Inr write \<Rightarrow>
        (case i2c_rdwr write st of
           Inl e \<Rightarrow> Inl e
         | Inr (_, st1) \<Rightarrow> Inr st1))"

text \<open>
  \<open>__readI2C(register, numBytes)\<close> up to \<open>list(read)\<close>: both assertions on the values,
  the message that writes the register address and its transaction, then the message
  that reads and its transaction. \<open>list(read)\<close> has as many bytes as the length field of
  the read message says.
\<close>

definition readI2CList :: "register \<Rightarrow> nat \<Rightarrow> gt911 \<Rightarrow> (int list) result" where
  "readI2CList register numBytes st =
    (if \<not> length register \<ge> 1 then Inl (AssertionError, st)
     else if \<not> numBytes \<ge> 1 then Inl (AssertionError, st)
     else
       case i2c_msg_write (deviceAddress st) register of
         Inl e \<Rightarrow> Inl (e, st)
       | Inr write \<Rightarrow>
          (case i2c_rdwr write st of
             Inl e \<Rightarrow> Inl e
           | Inr (_, st1) \<Rightarrow>
              (case i2c_rdwr (i2c_msg_read (deviceAddress st1) numBytes) st1 of
                 Inl e \<Rightarrow> Inl e
               | Inr (bs, st2) \<Rightarrow>
                   Inr (map uint
                          (take (msgLen numBytes)
                             (bs @ replicate (msgLen numBytes) 0)), st2))))"

text \<open>
  \<open>__readI2C\<close> returns the list when \<open>numBytes > 1\<close> (that is \<open>readI2CList\<close>) and the
  single integer \<open>list(read)[0]\<close> otherwise. Every call in the driver reads one byte;
  \<open>readI2C\<close> is that case.
\<close>

definition readI2C :: "register \<Rightarrow> gt911 \<Rightarrow> int result" where
  "readI2C register st =
    (case readI2CList register 1 st of
       Inl e \<Rightarrow> Inl e
     | Inr (vs, st1) \<Rightarrow> Inr (vs ! 0, st1))"

text \<open>
  \<open>__readI2CMultiByteValue\<close>. Each register is a list by typing, so the check of
  line 189 cannot fail. The first loop reads one byte per register and appends
  it to \<open>readValues\<close>; the second ORs each value in, shifted by \<open>8 * i\<close>.
\<close>

fun readValuesLoop :: "register list \<Rightarrow> int list \<Rightarrow> gt911 \<Rightarrow> (int list) result" where
  "readValuesLoop [] readValues st = Inr (readValues, st)"
| "readValuesLoop (register # registers) readValues st =
    (case readI2C register st of
       Inl e \<Rightarrow> Inl e
     | Inr (v, st1) \<Rightarrow> readValuesLoop registers (readValues @ [v]) st1)"

fun combineLoop :: "nat \<Rightarrow> int list \<Rightarrow> int \<Rightarrow> int" where
  "combineLoop i [] combinedValue = combinedValue"
| "combineLoop i (v # vs) combinedValue =
    combineLoop (Suc i) vs (combinedValue OR push_bit (8 * i) v)"

text \<open>With \<open>combine = True\<close>, the default, which every call in the driver uses.\<close>

definition readI2CMultiByteValue :: "register list \<Rightarrow> gt911 \<Rightarrow> int result" where
  "readI2CMultiByteValue registers st =
    (case readValuesLoop registers [] st of
       Inl e \<Rightarrow> Inl e
     | Inr (readValues, st1) \<Rightarrow> Inr (combineLoop 0 readValues 0, st1))"

text \<open>With \<open>combine = False\<close>: the list as it is.\<close>

definition readI2CMultiByteList :: "register list \<Rightarrow> gt911 \<Rightarrow> (int list) result" where
  "readI2CMultiByteList registers st = readValuesLoop registers [] st"

subsection \<open>Device metadata\<close>

definition queryTouchBoundary :: "gt911 \<Rightarrow> (int \<times> int) result" where
  "queryTouchBoundary st =
    (case readI2CMultiByteValue [[0x80, 0x48], [0x80, 0x49]] st of
       Inl e \<Rightarrow> Inl e
     | Inr (v1, st1) \<Rightarrow>
        (let xMax = v1 * scalingFactor st1 in
         case readI2CMultiByteValue [[0x80, 0x4A], [0x80, 0x4B]] st1 of
           Inl e \<Rightarrow> Inl e
         | Inr (v2, st2) \<Rightarrow>
            (let yMax = v2 * scalingFactor st2 in
             if swapXY st2 then Inr ((yMax, xMax), st2) else Inr ((xMax, yMax), st2))))"

definition queryCoordinateResolution :: "gt911 \<Rightarrow> (int \<times> int) result" where
  "queryCoordinateResolution st =
    (case readI2CMultiByteValue [[0x81, 0x46], [0x81, 0x47]] st of
       Inl e \<Rightarrow> Inl e
     | Inr (v1, st1) \<Rightarrow>
        (let xRes = v1 * scalingFactor st1 in
         case readI2CMultiByteValue [[0x81, 0x48], [0x81, 0x49]] st1 of
           Inl e \<Rightarrow> Inl e
         | Inr (v2, st2) \<Rightarrow>
            (let yRes = v2 * scalingFactor st2 in
             if swapXY st2 then Inr ((yRes, xRes), st2) else Inr ((xRes, yRes), st2))))"

subsection \<open>Contact query\<close>

text \<open>
  Lines 243 to 248 of \<open>__queryPoint\<close>: the flips, each against an entry of
  \<open>self.coordinateResolution\<close>, then the swap.
\<close>

definition axisTransform :: "gt911 \<Rightarrow> int \<times> int \<Rightarrow> int \<times> int" where
  "axisTransform st p =
    (let xCoordinate = fst p; yCoordinate = snd p;
         xCoordinate = (if flipX st then fst (coordinateResolution st) - xCoordinate
                        else xCoordinate);
         yCoordinate = (if flipY st then snd (coordinateResolution st) - yCoordinate
                        else yCoordinate)
     in if swapXY st then (yCoordinate, xCoordinate) else (xCoordinate, yCoordinate))"

definition queryPoint :: "nat \<Rightarrow> gt911 \<Rightarrow> (int \<times> int \<times> int \<times> int) result" where
  "queryPoint pointID st =
    (if \<not> (0 \<le> pointID \<and> pointID \<le> 4) then Inl (AssertionError, st)
     else
       case map_of tpRegisterID pointID of
         None \<Rightarrow> Inl (KeyError, st)
       | Some regs \<Rightarrow>
          (case readI2CMultiByteValue (reg_x regs) st of
             Inl e \<Rightarrow> Inl e
           | Inr (vx, st1) \<Rightarrow>
              (case readI2CMultiByteValue (reg_y regs) st1 of
                 Inl e \<Rightarrow> Inl e
               | Inr (vy, st2) \<Rightarrow>
                  (let xy = axisTransform st2
                              (vx * scalingFactor st1, vy * scalingFactor st2) in
                   case readI2CMultiByteValue (reg_size regs) st2 of
                     Inl e \<Rightarrow> Inl e
                   | Inr (size1, st3) \<Rightarrow>
                      (case readI2C (reg_track regs) st3 of
                         Inl e \<Rightarrow> Inl e
                       | Inr (track, st4) \<Rightarrow>
                           Inr ((fst xy, snd xy, size1, track), st4))))))"

subsection \<open>Events\<close>

text \<open>
  \<open>self.ui.write\<close> and \<open>self.ui.syn\<close> append to the log; the virtual device is taken to
  accept every event.
\<close>

definition ui_write :: "evcode \<Rightarrow> int \<Rightarrow> gt911 \<Rightarrow> gt911" where
  "ui_write code v st = st\<lparr>trace := trace st @ [UiWrite code v]\<rparr>"

definition ui_syn :: "gt911 \<Rightarrow> gt911" where
  "ui_syn st = st\<lparr>trace := trace st @ [UiSyn]\<rparr>"

definition newTrack :: "int \<Rightarrow> info \<Rightarrow> gt911 \<Rightarrow> gt911" where
  "newTrack trackID info st =
    (let st = ui_write ABS_MT_SLOT trackID st;
         st = ui_write ABS_MT_TRACKING_ID trackID st;
         st = ui_write ABS_MT_POSITION_X (info_x info) st;
         st = ui_write ABS_MT_POSITION_Y (info_y info) st;
         st = ui_write ABS_MT_TOUCH_MAJOR (info_size info) st
     in st)"

definition updateTrack :: "int \<Rightarrow> info \<Rightarrow> gt911 \<Rightarrow> gt911" where
  "updateTrack trackID info st =
    (let st = ui_write ABS_MT_SLOT trackID st;
         st = ui_write ABS_MT_POSITION_X (info_x info) st;
         st = ui_write ABS_MT_POSITION_Y (info_y info) st;
         st = ui_write ABS_MT_TOUCH_MAJOR (info_size info) st
     in st)"

definition endTrack :: "int \<Rightarrow> gt911 \<Rightarrow> gt911" where
  "endTrack trackID st =
    (let st = ui_write ABS_MT_SLOT trackID st;
         st = ui_write ABS_MT_TRACKING_ID (- 1) st
     in st)"

subsection \<open>The track diff\<close>

text \<open>
  The three sets of \<open>__eventCallback\<close>, as Python computes them from the keys of the
  two dictionaries.
\<close>

definition newTracks :: "gt911 \<Rightarrow> int set" where
  "newTracks st = set (map fst (touchInfo st)) - set (map fst (previousTouchInfo st))"

definition commonTracks :: "gt911 \<Rightarrow> int set" where
  "commonTracks st = set (map fst (touchInfo st)) \<inter> set (map fst (previousTouchInfo st))"

definition endedTracks :: "gt911 \<Rightarrow> int set" where
  "endedTracks st = set (map fst (previousTouchInfo st)) - set (map fst (touchInfo st))"

text \<open>
  Python does not say in which order a \<open>for\<close> loop goes through a set: in CPython it is
  the order of the hash table, which the keys of the two dictionaries and the order of
  their insertion decide. The order is a parameter of the model. \<open>order cur prev k\<close> is
  the rank of track ID \<open>k\<close> in the iteration when the dictionaries have the key sequences
  \<open>cur\<close> and \<open>prev\<close>; a lower rank comes first, and equal ranks go by ascending ID. The
  three sets of one call are disjoint, so one ranking orders each of them as it likes.
\<close>

type_synonym setOrder = "int list \<Rightarrow> int list \<Rightarrow> int \<Rightarrow> nat"

definition iterate :: "setOrder \<Rightarrow> gt911 \<Rightarrow> int set \<Rightarrow> int list" where
  "iterate order st tracks =
    sort_key (order (map fst (touchInfo st)) (map fst (previousTouchInfo st)))
      (sorted_list_of_set tracks)"

text \<open>
  The bodies of the three loops, over the track IDs in the order of the iteration.
  \<open>self.__touchInfo[trackID]\<close> raises \<open>KeyError\<close> on a missing key.
\<close>

fun newTracksLoop :: "int list \<Rightarrow> gt911 \<Rightarrow> run" where
  "newTracksLoop [] st = Inr st"
| "newTracksLoop (trackID # rest) st =
    (case map_of (touchInfo st) trackID of
       None \<Rightarrow> Inl (KeyError, st)
     | Some info \<Rightarrow> newTracksLoop rest (newTrack trackID info st))"

fun commonTracksLoop :: "int list \<Rightarrow> gt911 \<Rightarrow> run" where
  "commonTracksLoop [] st = Inr st"
| "commonTracksLoop (trackID # rest) st =
    (case map_of (touchInfo st) trackID of
       None \<Rightarrow> Inl (KeyError, st)
     | Some info \<Rightarrow> commonTracksLoop rest (updateTrack trackID info st))"

fun endedTracksLoop :: "int list \<Rightarrow> gt911 \<Rightarrow> gt911" where
  "endedTracksLoop [] st = st"
| "endedTracksLoop (trackID # rest) st = endedTracksLoop rest (endTrack trackID st)"

text \<open>Lines 261 to 266, 268 to 274 and 276 to 281 of \<open>__eventCallback\<close>.\<close>

definition emitNew :: "setOrder \<Rightarrow> gt911 \<Rightarrow> run" where
  "emitNew order st =
    (let tracks = newTracks st in
     case newTracksLoop (iterate order st tracks) st of
       Inl e \<Rightarrow> Inl e
     | Inr st1 \<Rightarrow> Inr (if card tracks > 0 then ui_syn st1 else st1))"

definition emitUpdated :: "setOrder \<Rightarrow> gt911 \<Rightarrow> run" where
  "emitUpdated order st =
    (let tracks = commonTracks st in
     case commonTracksLoop (iterate order st tracks) st of
       Inl e \<Rightarrow> Inl e
     | Inr st1 \<Rightarrow> Inr (if card tracks > 0 then ui_syn st1 else st1))"

definition emitEnded :: "setOrder \<Rightarrow> gt911 \<Rightarrow> gt911" where
  "emitEnded order st =
    (let tracks = endedTracks st;
         st1 = endedTracksLoop (iterate order st tracks) st
     in if card tracks > 0 then ui_syn st1 else st1)"

definition eventCallback :: "setOrder \<Rightarrow> gt911 \<Rightarrow> run" where
  "eventCallback order st =
    (case emitNew order st of
       Inl e \<Rightarrow> Inl e
     | Inr st1 \<Rightarrow>
        (case emitUpdated order st1 of
           Inl e \<Rightarrow> Inl e
         | Inr st2 \<Rightarrow>
            (let st3 = emitEnded order st2
             in Inr (st3\<lparr>previousTouchInfo := touchInfo st3\<rparr>))))"

subsection \<open>The polling loop\<close>

text \<open>Lines 333 to 337: the status byte, taken apart.\<close>

record statusFlags =
  bufferStatus :: bool
  largeDetect :: bool
  proximityValid :: bool
  haveKey :: bool
  touchPoints :: int

definition decodeStatus :: "int \<Rightarrow> statusFlags" where
  "decodeStatus statusByte =
    \<lparr>bufferStatus = (statusByte AND 0b10000000 \<noteq> 0),
     largeDetect = (statusByte AND 0b01000000 \<noteq> 0),
     proximityValid = (statusByte AND 0b00100000 \<noteq> 0),
     haveKey = (statusByte AND 0b00010000 \<noteq> 0),
     touchPoints = statusByte AND 0b00001111\<rparr>"

text \<open>
  Lines 345 to 354: \<open>for i in range(touchPoints)\<close>, each point stored under its track
  ID as it is read, and its track ID appended to \<open>tracksThisRound\<close>.
\<close>

fun queryLoop :: "nat list \<Rightarrow> int list \<Rightarrow> gt911 \<Rightarrow> (int list) result" where
  "queryLoop [] tracksThisRound st = Inr (tracksThisRound, st)"
| "queryLoop (i # rest) tracksThisRound st =
    (case queryPoint i st of
       Inl e \<Rightarrow> Inl e
     | Inr ((x, y, size1, track), st1) \<Rightarrow>
         queryLoop rest (tracksThisRound @ [track])
           (st1\<lparr>touchInfo :=
              AList.update track
                \<lparr>info_x = x, info_y = y, info_size = size1, info_track = track\<rparr>
                (touchInfo st1)\<rparr>))"

text \<open>Lines 356 to 359: the tracks that were not reported this round are deleted.\<close>

definition removeMissing :: "int list \<Rightarrow> gt911 \<Rightarrow> gt911" where
  "removeMissing tracksThisRound st =
    (let toDel = filter (\<lambda>k. k \<notin> set tracksThisRound) (map fst (touchInfo st))
     in st\<lparr>touchInfo := fold AList.delete toDel (touchInfo st)\<rparr>)"

definition sleep :: "gt911 \<Rightarrow> gt911" where
  "sleep st = st\<lparr>trace := trace st @ [Sleep]\<rparr>"

text \<open>One pass through the body of \<open>while(True)\<close>, lines 330 to 373.\<close>

definition readLoopBody :: "setOrder \<Rightarrow> gt911 \<Rightarrow> run" where
  "readLoopBody order st =
    (case readI2C [0x81, 0x4E] st of
       Inl e \<Rightarrow> Inl e
     | Inr (statusByte, st1) \<Rightarrow>
        (let flags = decodeStatus statusByte in
         if bufferStatus flags then
           (case
              (if touchPoints flags \<ge> 1 then
                 (case queryLoop [0..<nat (touchPoints flags)] [] st1 of
                    Inl e \<Rightarrow> Inl e
                  | Inr (tracksThisRound, st2) \<Rightarrow>
                      eventCallback order (removeMissing tracksThisRound st2))
               else eventCallback order (st1\<lparr>touchInfo := []\<rparr>))
            of
              Inl e \<Rightarrow> Inl e
            | Inr st3 \<Rightarrow>
               (case writeI2C [0x81, 0x4E] [0] st3 of
                  Inl e \<Rightarrow> Inl e
                | Inr st4 \<Rightarrow> Inr (sleep st4)))
         else Inr (sleep st1)))"

text \<open>
  \<open>__readLoop\<close> never returns. \<open>readLoop order n\<close> runs the first \<open>n\<close> passes: \<open>Inr st\<close> is
  the driver still running, in state \<open>st\<close> at the head of the loop; \<open>Inl (e, st)\<close> is an
  exception that left the loop, and with it the program, since nothing in the driver
  catches one.
\<close>

fun readLoop :: "setOrder \<Rightarrow> nat \<Rightarrow> gt911 \<Rightarrow> run" where
  "readLoop order 0 st = Inr st"
| "readLoop order (Suc n) st =
    (case readLoopBody order st of
       Inl e \<Rightarrow> Inl e
     | Inr st1 \<Rightarrow> readLoop order n st1)"

text \<open>
  \<open>__init__\<close>: the configuration is stored, the boundary and the resolution are
  queried once, both dictionaries start empty, and the loop is entered. The two
  geometry fields do not exist before they are assigned; nothing reads them before.
  Creating the virtual device is outside the model.
\<close>

definition init ::
  "int \<Rightarrow> int \<Rightarrow> bool \<Rightarrow> bool \<Rightarrow> bool \<Rightarrow> busReply list \<Rightarrow> (error \<times> gt911) + gt911" where
  "init device scaling fx fy sw replies =
    (let st = \<lparr>deviceAddress = device, flipX = fx, flipY = fy, swapXY = sw,
               scalingFactor = scaling, touchBoundary = (0, 0),
               coordinateResolution = (0, 0), touchInfo = [], previousTouchInfo = [],
               hw = replies, trace = []\<rparr>
     in case queryTouchBoundary st of
          Inl e \<Rightarrow> Inl e
        | Inr (b, st1) \<Rightarrow>
           (case queryCoordinateResolution (st1\<lparr>touchBoundary := b\<rparr>) of
              Inl e \<Rightarrow> Inl e
            | Inr (r, st2) \<Rightarrow> Inr (st2\<lparr>coordinateResolution := r\<rparr>)))"

definition GT911 ::
  "int \<Rightarrow> int \<Rightarrow> bool \<Rightarrow> bool \<Rightarrow> bool \<Rightarrow> setOrder \<Rightarrow> busReply list \<Rightarrow> nat \<Rightarrow> run"
  where
  "GT911 device scaling fx fy sw order replies n =
    (case init device scaling fx fy sw replies of
       Inl e \<Rightarrow> Inl e
     | Inr st \<Rightarrow> readLoop order n st)"

subsection \<open>Observing a run\<close>

text \<open>
  The state in which a call ended, by return or by exception, and the exception that
  ended it, if any.
\<close>

fun stateOf :: "(error \<times> gt911) + ('a \<times> gt911) \<Rightarrow> gt911" where
  "stateOf (Inl (e, st)) = st"
| "stateOf (Inr (v, st)) = st"

fun finalState :: "run \<Rightarrow> gt911" where
  "finalState (Inl (e, st)) = st"
| "finalState (Inr st) = st"

fun raised :: "run \<Rightarrow> error option" where
  "raised (Inl (e, st)) = Some e"
| "raised (Inr st) = None"

text \<open>
  What the three event handlers write for one track, the synchronisation that follows a
  non-empty group, and with them everything one call of \<open>__eventCallback\<close> writes.
  \<open>emit\<close> appends to the log; \<open>diffed\<close> is the state a call of \<open>__eventCallback\<close> leaves,
  and \<open>clearAndSleep\<close> is what lines 369 to 373 do after it.
\<close>

definition newTrackEvents :: "int \<Rightarrow> info \<Rightarrow> effect list" where
  "newTrackEvents trackID info =
    [UiWrite ABS_MT_SLOT trackID, UiWrite ABS_MT_TRACKING_ID trackID,
     UiWrite ABS_MT_POSITION_X (info_x info), UiWrite ABS_MT_POSITION_Y (info_y info),
     UiWrite ABS_MT_TOUCH_MAJOR (info_size info)]"

definition updateTrackEvents :: "int \<Rightarrow> info \<Rightarrow> effect list" where
  "updateTrackEvents trackID info =
    [UiWrite ABS_MT_SLOT trackID,
     UiWrite ABS_MT_POSITION_X (info_x info), UiWrite ABS_MT_POSITION_Y (info_y info),
     UiWrite ABS_MT_TOUCH_MAJOR (info_size info)]"

definition endTrackEvents :: "int \<Rightarrow> effect list" where
  "endTrackEvents trackID = [UiWrite ABS_MT_SLOT trackID, UiWrite ABS_MT_TRACKING_ID (- 1)]"

definition emit :: "effect list \<Rightarrow> gt911 \<Rightarrow> gt911" where
  "emit es st = st\<lparr>trace := trace st @ es\<rparr>"

definition synIf :: "int set \<Rightarrow> effect list" where
  "synIf tracks = (if card tracks > 0 then [UiSyn] else [])"

definition callbackEvents :: "setOrder \<Rightarrow> gt911 \<Rightarrow> effect list" where
  "callbackEvents order st =
     concat (map (\<lambda>t. newTrackEvents t (the (map_of (touchInfo st) t)))
        (iterate order st (newTracks st))) @ synIf (newTracks st)
   @ concat (map (\<lambda>t. updateTrackEvents t (the (map_of (touchInfo st) t)))
        (iterate order st (commonTracks st))) @ synIf (commonTracks st)
   @ concat (map endTrackEvents (iterate order st (endedTracks st)))
       @ synIf (endedTracks st)"

definition diffed :: "setOrder \<Rightarrow> gt911 \<Rightarrow> gt911" where
  "diffed order st = (emit (callbackEvents order st) st)\<lparr>previousTouchInfo := touchInfo st\<rparr>"

definition clearAndSleep :: "gt911 \<Rightarrow> run" where
  "clearAndSleep st =
    (case writeI2C [0x81, 0x4E] [0] st of
       Inl e \<Rightarrow> Inl e
     | Inr st1 \<Rightarrow> Inr (sleep st1))"

text \<open>
  The values of the slot-select events in a log, and whether a value lies in the range
  that \<open>caps\<close> declares for \<open>ABS_MT_SLOT\<close>.
\<close>

fun slotSelects :: "effect list \<Rightarrow> int list" where
  "slotSelects [] = []"
| "slotSelects (UiWrite ABS_MT_SLOT v # es) = v # slotSelects es"
| "slotSelects (e # es) = slotSelects es"

definition slotDeclared :: "gt911 \<Rightarrow> int \<Rightarrow> bool" where
  "slotDeclared st v =
    (case map_of (caps st) ABS_MT_SLOT of
       None \<Rightarrow> False
     | Some a \<Rightarrow> abs_min a \<le> v \<and> v \<le> abs_max a)"

text \<open>
  Kinds of effects: \<open>isClear\<close> is the write of zero to the status register, \<open>quiet\<close> is
  any other bus transaction, \<open>uiEvent\<close> is an event or a synchronisation on the virtual
  device. \<open>clears\<close> counts the clears a driver has issued so far. \<open>busOnly st st'\<close>: from
  \<open>st\<close> to \<open>st'\<close> the driver did nothing but quiet bus transactions.
\<close>

fun quiet :: "effect \<Rightarrow> bool" where
  "quiet (I2CWrite d m) = (m \<noteq> [0x81, 0x4E, 0])"
| "quiet (I2CRead d n) = True"
| "quiet e = False"

fun isClear :: "effect \<Rightarrow> bool" where
  "isClear (I2CWrite d m) = (m = [0x81, 0x4E, 0])"
| "isClear e = False"

fun uiEvent :: "effect \<Rightarrow> bool" where
  "uiEvent (UiWrite c v) = True"
| "uiEvent UiSyn = True"
| "uiEvent e = False"

definition clears :: "gt911 \<Rightarrow> nat" where
  "clears st = length (filter isClear (trace st))"

definition busOnly :: "gt911 \<Rightarrow> gt911 \<Rightarrow> bool" where
  "busOnly st st' \<longleftrightarrow>
    (\<exists>es h. list_all quiet es \<and> st' = st\<lparr>trace := trace st @ es, hw := h\<rparr>)"

text \<open>
  The number of indices in a \<open>range\<close> that \<open>__queryPoint\<close> accepts, and the bound on both
  dictionaries that holds between two passes of the loop.
\<close>

definition pointsRead :: "nat list \<Rightarrow> nat" where
  "pointsRead is = length (filter (\<lambda>i. i \<le> 4) is)"

definition touchBound :: "gt911 \<Rightarrow> bool" where
  "touchBound st \<longleftrightarrow>
    distinct (map fst (touchInfo st)) \<and> length (touchInfo st) \<le> 5
    \<and> length (previousTouchInfo st) \<le> 5"

subsection \<open>Inputs for the examples\<close>

text \<open>
  Two orders of iteration: by ascending track ID, and in the sequence of a given list
  (\<open>position xs k\<close> is the index of \<open>k\<close> in \<open>xs\<close>). The runs below that take the
  ascending order are observed only in what no order changes: whether and how a run
  ends, the dictionaries, the bus transactions, and the events of a single track.
\<close>

definition ascending :: setOrder where
  "ascending cur prev k = 0"

definition position :: "int list \<Rightarrow> int \<Rightarrow> nat" where
  "position xs k = length (takeWhile (\<lambda>x. x \<noteq> k) xs)"

text \<open>
  A controller that acknowledges each address write and answers each one-byte read
  with the next byte of the list.
\<close>

fun answers :: "byte list \<Rightarrow> busReply list" where
  "answers [] = []"
| "answers (b # bs) = Ack [] # Ack [b] # answers bs"

text \<open>
  A driver as \<open>__init__\<close> leaves it on an 800 by 480 panel at address \<open>0x5D\<close> with the
  default configuration, facing a controller that will give the replies listed.
\<close>

definition idleDriver :: "busReply list \<Rightarrow> gt911" where
  "idleDriver replies =
    \<lparr>deviceAddress = 0x5D, flipX = False, flipY = False, swapXY = False,
     scalingFactor = 1, touchBoundary = (800, 480), coordinateResolution = (800, 480),
     touchInfo = [], previousTouchInfo = [], hw = replies, trace = []\<rparr>"

text \<open>
  The answers to the two queries of \<open>__init__\<close> on that panel; the seven bytes of one
  contact (x = 16, y = 32, size = 5) with its track ID; a pass of the loop that reports
  this one contact and has its clear acknowledged.
\<close>

definition panel800x480 :: "busReply list" where
  "panel800x480 = answers [0x20, 0x03, 0xE0, 0x01, 0x20, 0x03, 0xE0, 0x01]"

definition contact :: "byte \<Rightarrow> busReply list" where
  "contact t = answers [0x10, 0x00, 0x20, 0x00, 0x05, 0x00, t]"

definition onePoint :: "byte \<Rightarrow> busReply list" where
  "onePoint t = answers [0x81] @ contact t @ [Ack []]"

text \<open>
  One track that has not moved since the previous pass; and two new tracks, 8 stored
  before 1.
\<close>

definition heldContact :: gt911 where
  "heldContact =
    (idleDriver [])\<lparr>
      touchInfo := [(5, \<lparr>info_x = 10, info_y = 10, info_size = 3, info_track = 5\<rparr>)],
      previousTouchInfo := [(5, \<lparr>info_x = 10, info_y = 10, info_size = 3, info_track = 5\<rparr>)]\<rparr>"

definition eightThenOne :: gt911 where
  "eightThenOne =
    (idleDriver [])\<lparr>
      touchInfo := [(8, \<lparr>info_x = 10, info_y = 10, info_size = 3, info_track = 8\<rparr>),
                    (1, \<lparr>info_x = 20, info_y = 20, info_size = 3, info_track = 1\<rparr>)]\<rparr>"

text \<open>
  Five contacts with the track IDs 10 to 14, then a status byte that announces six
  contacts, of which the five that \<open>__queryPoint\<close> accepts carry the track IDs 0 to 4.
\<close>

definition tenTracks :: "busReply list" where
  "tenTracks =
     panel800x480
     @ answers [0x85] @ contact 10 @ contact 11 @ contact 12 @ contact 13 @ contact 14 @ [Ack []]
     @ answers [0x86] @ contact 0 @ contact 1 @ contact 2 @ contact 3 @ contact 4"

text \<open>
  Five contacts with the track IDs 10 to 14, then five contacts with the track IDs 0
  to 4, each pass with its clear acknowledged.
\<close>

definition fiveThenFive :: "busReply list" where
  "fiveThenFive =
     panel800x480
     @ answers [0x85] @ contact 10 @ contact 11 @ contact 12 @ contact 13 @ contact 14 @ [Ack []]
     @ answers [0x85] @ contact 0 @ contact 1 @ contact 2 @ contact 3 @ contact 4 @ [Ack []]"


text \<open>
  A status byte with the buffer bit and a count of six; one with the buffer bit and
  a count of zero; one without the buffer bit.
\<close>

definition sixPoints :: gt911 where
  "sixPoints =
     idleDriver (answers [0x86] @ contact 0 @ contact 1 @ contact 2 @ contact 3 @ contact 4
       @ contact 5 @ [Ack []])"

definition releasedAll :: gt911 where
  "releasedAll = idleDriver (answers [0x80] @ [Ack []])"

definition nothingNew :: gt911 where
  "nothingNew = idleDriver (answers [0x00])"

text \<open>
  An 800 by 480 panel driven with \<open>--flip-x --swap-xy\<close>: one contact at raw x = 700,
  y = 100.
\<close>

definition swappedAndFlipped :: "busReply list" where
  "swappedAndFlipped =
     panel800x480 @ answers [0x81, 0xBC, 0x02, 0x64, 0x00, 0x05, 0x00, 0x00] @ [Ack []]"

section \<open>Register access: reading multi-byte values\<close>

lemma readI2C_ok:
  assumes "isAddress register" "hw st = Ack w # Ack [b] # rest"
  shows "readI2C register st =
    Inr (uint b,
         st\<lparr>trace := trace st @
                [I2CWrite (deviceAddress st mod 65536) register,
                 I2CRead (deviceAddress st mod 65536) 1],
            hw := rest\<rparr>)"
  using assms
  by (cases register)
     (simp_all add: isAddress_def readI2C_def readI2CList_def i2c_msg_write_def
        i2c_msg_read_def msgLen_def i2c_rdwr_def)

lemma readValuesLoop_ok:
  assumes "length registers = length bs" "list_all isAddress registers" "hw st = answers bs @ rest"
  shows "\<exists>st'. readValuesLoop registers acc st = Inr (acc @ map uint bs, st') \<and> hw st' = rest"
  using assms
proof (induction registers arbitrary: bs acc st)
  case Nil
  then show ?case by simp
next
  case (Cons r rs)
  then obtain b bs' where bs: "bs = b # bs'" by (cases bs) auto
  from Cons.prems bs have r: "isAddress r"
    and hw: "hw st = Ack [] # Ack [b] # (answers bs' @ rest)" by auto
  let ?st1 = "st\<lparr>trace := trace st @
                      [I2CWrite (deviceAddress st mod 65536) r,
                       I2CRead (deviceAddress st mod 65536) 1],
                  hw := answers bs' @ rest\<rparr>"
  have rd: "readI2C r st = Inr (uint b, ?st1)" by (rule readI2C_ok[OF r hw])
  from Cons.prems bs
  have "length rs = length bs'" "list_all isAddress rs" "hw ?st1 = answers bs' @ rest" by auto
  from Cons.IH[OF this, of "acc @ [uint b]"] show ?case using rd bs by simp
qed

text \<open>
  Below \<open>2 ^ n\<close>, OR with a value shifted by \<open>n\<close> is addition.
\<close>

lemma or_push_bit_add:
  fixes a v :: int
  assumes "0 \<le> a" "a < 2 ^ n"
  shows "a OR push_bit n v = a + push_bit n v"
proof -
  have a: "take_bit n a = a" using assms by (simp add: take_bit_int_eq_self)
  have "a AND push_bit n v = 0"
  proof (rule bit_eqI)
    fix k
    have "bit a k \<Longrightarrow> k < n" using a by (metis bit_take_bit_iff)
    then show "bit (a AND push_bit n v) k = bit (0::int) k"
      by (auto simp add: bit_and_iff bit_push_bit_iff)
  qed
  then show ?thesis using plus_and_or[of a "push_bit n v"] by simp
qed

lemma combineLoop_sum:
  assumes "\<forall>v\<in>set vs. 0 \<le> v \<and> v < 256" "0 \<le> acc" "acc < 2 ^ (8 * i)"
  shows "combineLoop i vs acc = acc + (\<Sum>j<length vs. push_bit (8 * (i + j)) (vs ! j))"
  using assms
proof (induction vs arbitrary: i acc)
  case Nil
  then show ?case by simp
next
  case (Cons v vs)
  have v: "0 \<le> v" "v < 256" using Cons.prems by auto
  have eq: "acc OR push_bit (8 * i) v = acc + push_bit (8 * i) v"
    using Cons.prems by (simp add: or_push_bit_add)
  have nonneg: "0 \<le> acc + push_bit (8 * i) v"
    using Cons.prems v by (simp add: push_bit_eq_mult)
  have le: "v * 2 ^ (8 * i) \<le> 255 * (2 ^ (8 * i) :: int)"
    using v by (intro mult_right_mono) auto
  have pw: "(2::int) ^ (8 * Suc i) = 256 * 2 ^ (8 * i)" by (simp add: power_add)
  have bound: "acc + push_bit (8 * i) v < 2 ^ (8 * Suc i)"
    unfolding pw push_bit_eq_mult using le Cons.prems(3) by linarith
  have "combineLoop (Suc i) vs (acc + push_bit (8 * i) v) =
      acc + push_bit (8 * i) v + (\<Sum>j<length vs. push_bit (8 * (Suc i + j)) (vs ! j))"
    using Cons.IH[of "acc + push_bit (8 * i) v" "Suc i"] Cons.prems(1) nonneg bound by auto
  moreover have "(\<Sum>j<length (v # vs). push_bit (8 * (i + j)) ((v # vs) ! j)) =
      push_bit (8 * i) v + (\<Sum>j<length vs. push_bit (8 * (Suc i + j)) (vs ! j))"
    by (simp add: sum.lessThan_Suc_shift add_ac del: sum.lessThan_Suc)
  ultimately show ?case using eq by simp
qed

text \<open>
  Claim C7. Whatever the register addresses (each a non-empty list of bytes) and
  whatever bytes the controller answers from them, in that order,
  \<open>__readI2CMultiByteValue\<close> returns the little-endian combination: the byte of register
  \<open>i\<close> shifted left by \<open>8 * i\<close> bits, so the first byte is the least significant one.
\<close>

theorem readI2CMultiByteValue_little_endian:
  assumes "length registers = length bs" "list_all isAddress registers" "hw st = answers bs @ rest"
  shows "\<exists>st'. readI2CMultiByteValue registers st =
      Inr (\<Sum>i<length bs. push_bit (8 * i) (uint (bs ! i)), st') \<and> hw st' = rest"
proof -
  obtain st' where rv: "readValuesLoop registers [] st = Inr (map uint bs, st')"
    and hw': "hw st' = rest"
    using readValuesLoop_ok[OF assms, of "[]"] by auto
  have "combineLoop 0 (map uint bs) 0 =
      0 + (\<Sum>j<length (map uint bs). push_bit (8 * (0 + j)) (map uint bs ! j))"
    by (rule combineLoop_sum) (auto simp: uint_lt2p[where 'a=8, simplified])
  then have "combineLoop 0 (map uint bs) 0 = (\<Sum>i<length bs. push_bit (8 * i) (uint (bs ! i)))"
    by simp
  then show ?thesis using rv hw' by (simp add: readI2CMultiByteValue_def)
qed

text \<open>
  The bytes \<open>0x34\<close>, \<open>0x12\<close> read from two addresses in this order give \<open>0x1234\<close>.
\<close>

theorem readI2CMultiByteValue_0x1234:
  "\<exists>st'. readI2CMultiByteValue [[0x00], [0x01]] (idleDriver (answers [0x34, 0x12])) =
      Inr (0x1234, st') \<and> hw st' = []"
proof -
  have "(\<Sum>i<length [0x34, 0x12 :: byte]. push_bit (8 * i) (uint ([0x34, 0x12 :: byte] ! i)))
      = 0x1234"
    by (simp add: push_bit_eq_mult)
  then show ?thesis
    using readI2CMultiByteValue_little_endian
      [of "[[0x00], [0x01]]" "[0x34, 0x12]" "idleDriver (answers [0x34, 0x12])" "[]"]
    by (simp add: idleDriver_def isAddress_def)
qed

section \<open>The status byte\<close>

lemma and_exp_bit: "((x::int) AND 2 ^ n \<noteq> 0) = bit x n"
  by (simp add: and_exp_eq_0_iff_not_bit)

text \<open>
  Claim C8. Every byte decodes, without an error case: bit 7 is the buffer status,
  bit 6 large detect, bit 5 proximity valid, bit 4 the touch key, and the low four
  bits are the number of touch points. The byte \<open>0b10000011\<close> decodes to buffer ready,
  nothing else set, three touch points.
\<close>

theorem decodeStatus_bits:
  "decodeStatus (uint (b::byte)) =
     \<lparr>bufferStatus = bit b 7, largeDetect = bit b 6, proximityValid = bit b 5,
      haveKey = bit b 4, touchPoints = uint b mod 16\<rparr>
   \<and> decodeStatus 0b10000011 =
     \<lparr>bufferStatus = True, largeDetect = False, proximityValid = False,
      haveKey = False, touchPoints = 3\<rparr>"
proof -
  have b7: "(uint b AND 128 \<noteq> 0) = bit b 7"
    using and_exp_bit[of "uint b" 7] by (simp add: bit_uint_iff)
  have b6: "(uint b AND 64 \<noteq> 0) = bit b 6"
    using and_exp_bit[of "uint b" 6] by (simp add: bit_uint_iff)
  have b5: "(uint b AND 32 \<noteq> 0) = bit b 5"
    using and_exp_bit[of "uint b" 5] by (simp add: bit_uint_iff)
  have b4: "(uint b AND 16 \<noteq> 0) = bit b 4"
    using and_exp_bit[of "uint b" 4] by (simp add: bit_uint_iff)
  have lo: "uint b AND 15 = uint b mod 16"
    using take_bit_eq_mask[of 4 "uint b"] by (simp add: take_bit_eq_mod mask_eq_exp_minus_1)
  show ?thesis unfolding decodeStatus_def using b7 b6 b5 b4 lo by simp
qed

section \<open>The track diff and its events\<close>

text \<open>
  Claim C1. For any two dictionaries, the new and the common tracks together are the
  keys of the current one, the common and the ended tracks together are the keys of
  the previous one, and the three sets are pairwise disjoint.
\<close>

theorem track_diff_partition:
  "newTracks st \<union> commonTracks st = set (map fst (touchInfo st))
   \<and> commonTracks st \<union> endedTracks st = set (map fst (previousTouchInfo st))
   \<and> newTracks st \<inter> commonTracks st = {}
   \<and> newTracks st \<inter> endedTracks st = {}
   \<and> commonTracks st \<inter> endedTracks st = {}"
  unfolding newTracks_def commonTracks_def endedTracks_def by blast

text \<open>
  Each handler appends its events to the log and changes nothing else; so do the
  loops over the three sets, and \<open>__eventCallback\<close> never raises: every key it looks up
  is a key of \<open>__touchInfo\<close>.
\<close>

lemma emit_simps [simp]:
  "trace (emit es st) = trace st @ es"
  "touchInfo (emit es st) = touchInfo st"
  "previousTouchInfo (emit es st) = previousTouchInfo st"
  "hw (emit es st) = hw st"
  "deviceAddress (emit es st) = deviceAddress st"
  "emit es (emit fs st) = emit (fs @ es) st"
  "emit [] st = st"
  by (simp_all add: emit_def)

lemma newTrack_emit: "newTrack trackID info st = emit (newTrackEvents trackID info) st"
  by (simp add: newTrack_def ui_write_def emit_def newTrackEvents_def)

lemma updateTrack_emit: "updateTrack trackID info st = emit (updateTrackEvents trackID info) st"
  by (simp add: updateTrack_def ui_write_def emit_def updateTrackEvents_def)

lemma endTrack_emit: "endTrack trackID st = emit (endTrackEvents trackID) st"
  by (simp add: endTrack_def ui_write_def emit_def endTrackEvents_def)

lemma ui_syn_emit: "ui_syn st = emit [UiSyn] st"
  by (simp add: ui_syn_def emit_def)

lemma map_of_keys: "k \<in> set (map fst al) \<Longrightarrow> \<exists>v. map_of al k = Some v"
  by (induction al) auto

lemma newTracksLoop_emit:
  assumes "set ts \<subseteq> set (map fst (touchInfo st))"
  shows "newTracksLoop ts st =
    Inr (emit (concat (map (\<lambda>t. newTrackEvents t (the (map_of (touchInfo st) t))) ts)) st)"
  using assms
proof (induction ts arbitrary: st)
  case Nil
  then show ?case by simp
next
  case (Cons t ts)
  then obtain v where v: "map_of (touchInfo st) t = Some v" using map_of_keys[of t "touchInfo st"] by auto
  have "set ts \<subseteq> set (map fst (touchInfo (emit (newTrackEvents t v) st)))" using Cons.prems by simp
  from Cons.IH[OF this] show ?case using v by (simp add: newTrack_emit)
qed

lemma commonTracksLoop_emit:
  assumes "set ts \<subseteq> set (map fst (touchInfo st))"
  shows "commonTracksLoop ts st =
    Inr (emit (concat (map (\<lambda>t. updateTrackEvents t (the (map_of (touchInfo st) t))) ts)) st)"
  using assms
proof (induction ts arbitrary: st)
  case Nil
  then show ?case by simp
next
  case (Cons t ts)
  then obtain v where v: "map_of (touchInfo st) t = Some v" using map_of_keys[of t "touchInfo st"] by auto
  have "set ts \<subseteq> set (map fst (touchInfo (emit (updateTrackEvents t v) st)))" using Cons.prems by simp
  from Cons.IH[OF this] show ?case using v by (simp add: updateTrack_emit)
qed

lemma endedTracksLoop_emit:
  "endedTracksLoop ts st = emit (concat (map endTrackEvents ts)) st"
  by (induction ts arbitrary: st) (simp_all add: endTrack_emit)

lemma finite_tracks [simp]: "finite (newTracks st)" "finite (commonTracks st)" "finite (endedTracks st)"
  by (simp_all add: newTracks_def commonTracks_def endedTracks_def)

lemma iterate_set [simp]: "finite tracks \<Longrightarrow> set (iterate order st tracks) = tracks"
  by (simp add: iterate_def)

lemma iterate_distinct [simp]: "distinct (iterate order st tracks)"
  by (simp add: iterate_def)

lemma iterate_emit [simp]: "iterate order (emit es st) tracks = iterate order st tracks"
  by (simp add: iterate_def)

text \<open>
  Every way of going through a set is the iteration of some order: the one that ranks
  each track ID by its place in the sequence wanted.
\<close>

lemma position_upt:
  assumes "distinct (ps @ xs)"
  shows "map (position (ps @ xs)) xs = [length ps..<length ps + length xs]"
  using assms
proof (induction xs arbitrary: ps)
  case Nil
  then show ?case by simp
next
  case (Cons x xs)
  have "takeWhile (\<lambda>y. y \<noteq> x) (ps @ x # xs) =
      ps @ takeWhile (\<lambda>y. y \<noteq> x) (x # xs)"
    by (rule takeWhile_append2) (use Cons.prems in auto)
  then have "takeWhile (\<lambda>y. y \<noteq> x) (ps @ x # xs) = ps" by simp
  then have here: "position (ps @ x # xs) x = length ps" by (simp add: position_def)
  have ih: "map (position (ps @ x # xs)) xs =
      [Suc (length ps)..<Suc (length ps) + length xs]"
  proof -
    have "map (position ((ps @ [x]) @ xs)) xs =
        [length (ps @ [x])..<length (ps @ [x]) + length xs]"
      using Cons.prems by (intro Cons.IH) simp
    then show ?thesis
      by (simp only: append_assoc append_Cons append_Nil length_append_singleton)
  qed
  have lt: "length ps < length ps + length (x # xs)" by simp
  have eq: "length ps + length (x # xs) = Suc (length ps) + length xs" by simp
  have up: "[length ps..<length ps + length (x # xs)] =
      length ps # [Suc (length ps)..<Suc (length ps) + length xs]"
    using upt_conv_Cons[OF lt] unfolding eq .
  show ?case by (simp only: list.map here ih up)
qed

lemma iterate_any:
  assumes "distinct xs"
  shows "iterate (\<lambda>cur prev. position xs) st (set xs) = xs"
proof -
  let ?f = "position xs"
  let ?ys = "sort_key ?f (sorted_list_of_set (set xs))"
  have m: "map ?f xs = [0..<length xs]" using position_upt[of "[]" xs] assms by simp
  then have dx: "distinct (map ?f xs)" and sx: "sorted (map ?f xs)" by simp_all
  from dx have inj: "inj_on ?f (set xs)" by (simp add: distinct_map)
  have sety: "set ?ys = set xs" by simp
  have dy: "distinct (map ?f ?ys)" using inj sety by (simp add: distinct_map)
  have sy: "sorted (map ?f ?ys)" by simp
  have "?ys = xs"
    by (rule map_sorted_distinct_set_unique[of ?f]) (use inj sety sy dy sx dx in auto)
  then show ?thesis by (simp add: iterate_def)
qed

text \<open>
  So a run that writes track 8 before track 1, as a hash table of eight slots has
  them, is a run of the model, and so is the run that writes 1 before 8.
\<close>

lemma eightThenOne_orders:
  "slotSelects (trace (finalState (eventCallback (\<lambda>cur prev. position [8, 1]) eightThenOne)))
     = [8, 1]
   \<and> slotSelects (trace (finalState (eventCallback (\<lambda>cur prev. position [1, 8]) eightThenOne)))
     = [1, 8]"
  by code_simp

lemma emitNew_emit:
  "emitNew order st = Inr (emit (concat (map (\<lambda>t. newTrackEvents t (the (map_of (touchInfo st) t)))
        (iterate order st (newTracks st))) @ synIf (newTracks st)) st)"
proof -
  have "set (iterate order st (newTracks st)) \<subseteq> set (map fst (touchInfo st))"
    by (auto simp: newTracks_def)
  from newTracksLoop_emit[OF this] show ?thesis
    by (simp add: emitNew_def Let_def ui_syn_emit synIf_def)
qed

lemma emitUpdated_emit:
  "emitUpdated order st = Inr (emit (concat (map (\<lambda>t. updateTrackEvents t (the (map_of (touchInfo st) t)))
        (iterate order st (commonTracks st))) @ synIf (commonTracks st)) st)"
proof -
  have "set (iterate order st (commonTracks st)) \<subseteq> set (map fst (touchInfo st))"
    by (auto simp: commonTracks_def)
  from commonTracksLoop_emit[OF this] show ?thesis
    by (simp add: emitUpdated_def Let_def ui_syn_emit synIf_def)
qed

lemma emitEnded_emit:
  "emitEnded order st = emit (concat (map endTrackEvents (iterate order st (endedTracks st)))
       @ synIf (endedTracks st)) st"
  by (simp add: emitEnded_def Let_def endedTracksLoop_emit ui_syn_emit synIf_def)

lemma tracks_emit [simp]:
  "newTracks (emit es st) = newTracks st"
  "commonTracks (emit es st) = commonTracks st"
  "endedTracks (emit es st) = endedTracks st"
  by (simp_all add: newTracks_def commonTracks_def endedTracks_def)

lemma eventCallback_emit:
  "eventCallback order st = Inr ((emit (callbackEvents order st) st)\<lparr>previousTouchInfo := touchInfo st\<rparr>)"
  by (simp add: eventCallback_def emitNew_emit emitUpdated_emit emitEnded_emit callbackEvents_def Let_def)


text \<open>
  Claim C9. A track ID that is a key of both dictionaries is a common track, and
  \<open>__eventCallback\<close> writes for it the slot select, both positions and the size of its
  current entry, whatever the previous entry holds: nothing compares the two.
\<close>

theorem updated_unconditionally:
  assumes "map_of (touchInfo st) trackID = Some info"
    and "trackID \<in> set (map fst (previousTouchInfo st))"
  shows "trackID \<in> commonTracks st
    \<and> (\<exists>st' before after. eventCallback order st = Inr st'
         \<and> trace st' = trace st @ before
              @ [UiWrite ABS_MT_SLOT trackID, UiWrite ABS_MT_POSITION_X (info_x info),
                 UiWrite ABS_MT_POSITION_Y (info_y info),
                 UiWrite ABS_MT_TOUCH_MAJOR (info_size info)]
              @ after)"
proof -
  from assms(1) have "trackID \<in> set (map fst (touchInfo st))"
    by (metis map_of_eq_None_iff option.distinct(1) set_map)
  with assms(2) have mem: "trackID \<in> commonTracks st" by (simp add: commonTracks_def)
  then have "trackID \<in> set (iterate order st (commonTracks st))" by simp
  then obtain xs ys where split: "iterate order st (commonTracks st) = xs @ trackID # ys"
    by (meson split_list)
  let ?f = "\<lambda>t. updateTrackEvents t (the (map_of (touchInfo st) t))"
  let ?before = "concat (map (\<lambda>t. newTrackEvents t (the (map_of (touchInfo st) t)))
        (iterate order st (newTracks st))) @ synIf (newTracks st) @ concat (map ?f xs)"
  let ?after = "concat (map ?f ys) @ synIf (commonTracks st)
     @ concat (map endTrackEvents (iterate order st (endedTracks st))) @ synIf (endedTracks st)"
  have "callbackEvents order st = ?before @ updateTrackEvents trackID info @ ?after"
    using assms(1) by (simp add: callbackEvents_def split)
  then have "trace ((emit (callbackEvents order st) st)\<lparr>previousTouchInfo := touchInfo st\<rparr>) =
      trace st @ ?before @ updateTrackEvents trackID info @ ?after" by simp
  then show ?thesis using mem eventCallback_emit[of order st] unfolding updateTrackEvents_def by blast
qed

text \<open>
  The same at a track whose coordinates and size did not change.
\<close>

theorem updated_unconditionally_witness:
  "touchInfo heldContact = previousTouchInfo heldContact
   \<and> 5 \<in> commonTracks heldContact
   \<and> (\<exists>st' before after. eventCallback ascending heldContact = Inr st'
         \<and> trace st' = trace heldContact @ before
              @ [UiWrite ABS_MT_SLOT 5, UiWrite ABS_MT_POSITION_X 10,
                 UiWrite ABS_MT_POSITION_Y 10, UiWrite ABS_MT_TOUCH_MAJOR 3]
              @ after)"
  using updated_unconditionally
    [of heldContact 5 "\<lparr>info_x = 10, info_y = 10, info_size = 3, info_track = 5\<rparr>"]
  by (simp add: heldContact_def idleDriver_def)

lemma slotSelects_append: "slotSelects (es @ fs) = slotSelects es @ slotSelects fs"
  by (induction es rule: slotSelects.induct) simp_all

lemma slotSelects_new: "slotSelects (concat (map (\<lambda>t. newTrackEvents t (f t)) ts)) = ts"
  by (induction ts) (simp_all add: newTrackEvents_def)

lemma slotSelects_upd: "slotSelects (concat (map (\<lambda>t. updateTrackEvents t (f t)) ts)) = ts"
  by (induction ts) (simp_all add: updateTrackEvents_def)

lemma slotSelects_end: "slotSelects (concat (map endTrackEvents ts)) = ts"
  by (induction ts) (simp_all add: endTrackEvents_def)

lemma slotSelects_synIf: "slotSelects (synIf A) = []"
  by (simp add: synIf_def)

lemma slotSelects_callback:
  "slotSelects (callbackEvents order st) =
     iterate order st (newTracks st) @ iterate order st (commonTracks st)
     @ iterate order st (endedTracks st)"
  by (simp add: callbackEvents_def slotSelects_append slotSelects_new slotSelects_upd
      slotSelects_end slotSelects_synIf)

text \<open>
  Claim C10. Each of the three handlers selects the slot whose number is the track
  ID it was given, and \<open>__eventCallback\<close> selects exactly the track IDs of the three
  sets, each set in the order of its iteration, whatever that order is; a track ID
  above 9 is outside the range 0 to 9 that \<open>caps\<close> declares for \<open>ABS_MT_SLOT\<close>.
\<close>

theorem slot_select_is_track_id:
  "slotSelects (trace (newTrack trackID info st)) = slotSelects (trace st) @ [trackID]
   \<and> slotSelects (trace (updateTrack trackID info st)) = slotSelects (trace st) @ [trackID]
   \<and> slotSelects (trace (endTrack trackID st)) = slotSelects (trace st) @ [trackID]
   \<and> (\<exists>st'. eventCallback order st = Inr st'
        \<and> slotSelects (trace st') =
            slotSelects (trace st) @ iterate order st (newTracks st)
            @ iterate order st (commonTracks st) @ iterate order st (endedTracks st))
   \<and> (9 < trackID \<longrightarrow> \<not> slotDeclared st trackID)"
proof -
  have n: "slotSelects (trace (newTrack trackID info st)) = slotSelects (trace st) @ [trackID]"
    by (simp add: newTrack_emit slotSelects_append newTrackEvents_def)
  have u: "slotSelects (trace (updateTrack trackID info st)) = slotSelects (trace st) @ [trackID]"
    by (simp add: updateTrack_emit slotSelects_append updateTrackEvents_def)
  have e: "slotSelects (trace (endTrack trackID st)) = slotSelects (trace st) @ [trackID]"
    by (simp add: endTrack_emit slotSelects_append endTrackEvents_def)
  have c: "\<exists>st'. eventCallback order st = Inr st'
        \<and> slotSelects (trace st') =
            slotSelects (trace st) @ iterate order st (newTracks st)
            @ iterate order st (commonTracks st) @ iterate order st (endedTracks st)"
    by (simp add: eventCallback_emit slotSelects_append slotSelects_callback)
  have d: "9 < trackID \<longrightarrow> \<not> slotDeclared st trackID"
    by (simp add: slotDeclared_def caps_def AbsInfo_def)
  from n u e c d show ?thesis by blast
qed

text \<open>
  A pass of the loop in which the controller reports track ID 10 selects slot 10.
\<close>

lemma run_track_10:
  "case readLoopBody ascending (idleDriver (onePoint 10)) of
     Inl e \<Rightarrow> False
   | Inr st \<Rightarrow> slotSelects (trace st) = [10]"
  by code_simp

theorem slot_select_is_track_id_witness:
  "(\<exists>st. readLoopBody ascending (idleDriver (onePoint 10)) = Inr st \<and> slotSelects (trace st) = [10])
   \<and> (9::int) < 10 \<and> \<not> slotDeclared (idleDriver (onePoint 10)) 10"
proof -
  have "\<exists>st. readLoopBody ascending (idleDriver (onePoint 10)) = Inr st \<and> slotSelects (trace st) = [10]"
    using run_track_10 by (auto split: sum.splits)
  moreover have "\<not> slotDeclared (idleDriver (onePoint 10)) 10"
    using slot_select_is_track_id
        [of 10 "\<lparr>info_x = 16, info_y = 32, info_size = 5, info_track = 10\<rparr>"
          "idleDriver (onePoint 10)"] by simp
  ultimately show ?thesis by simp
qed

section \<open>The axis transform\<close>

text \<open>
  Claim C2 does not hold of the code. \<open>__queryCoordinateResolution\<close> has already
  swapped the resolution when \<open>swapXY\<close> is set, so \<open>__queryPoint\<close> flips the raw x against
  the native Y resolution. On an 800 by 480 panel with \<open>flipX\<close> and \<open>swapXY\<close>, the raw
  x = 700 becomes 480 - 700 = -220 (reported as y after the swap), where a flip about
  the native X resolution gives 800 - 700 = 100.
\<close>

theorem flipX_uses_swapped_resolution:
  "raised (GT911 0x5D 1 True False True ascending swappedAndFlipped 1) = None
   \<and> coordinateResolution (finalState (GT911 0x5D 1 True False True ascending swappedAndFlipped 1))
       = (480, 800)
   \<and> map_of (touchInfo (finalState (GT911 0x5D 1 True False True ascending swappedAndFlipped 1))) 0
       = Some \<lparr>info_x = 100, info_y = - 220, info_size = 5, info_track = 0\<rparr>"
  by code_simp

section \<open>Bus transactions leave the dictionaries alone\<close>

lemma busOnly_refl: "busOnly st st"
  unfolding busOnly_def by (rule exI[of _ "[]"], rule exI[of _ "hw st"]) simp

lemma busOnly_trans:
  assumes "busOnly a b" "busOnly b c"
  shows "busOnly a c"
proof -
  from assms(1) obtain es h where 1: "list_all quiet es" "b = a\<lparr>trace := trace a @ es, hw := h\<rparr>"
    unfolding busOnly_def by blast
  from assms(2) obtain fs k where 2: "list_all quiet fs" "c = b\<lparr>trace := trace b @ fs, hw := k\<rparr>"
    unfolding busOnly_def by blast
  have "c = a\<lparr>trace := trace a @ (es @ fs), hw := k\<rparr>" by (simp add: 1(2) 2(2))
  moreover have "list_all quiet (es @ fs)" using 1(1) 2(1) by simp
  ultimately show ?thesis unfolding busOnly_def by blast
qed

lemma busOnly_fields:
  assumes "busOnly st st'"
  shows "touchInfo st' = touchInfo st" "previousTouchInfo st' = previousTouchInfo st"
    "deviceAddress st' = deviceAddress st" "scalingFactor st' = scalingFactor st"
    "flipX st' = flipX st" "flipY st' = flipY st" "swapXY st' = swapXY st"
    "coordinateResolution st' = coordinateResolution st"
    "touchBoundary st' = touchBoundary st"
proof -
  from assms obtain es h where eq: "st' = st\<lparr>trace := trace st @ es, hw := h\<rparr>"
    unfolding busOnly_def by blast
  show "touchInfo st' = touchInfo st" "previousTouchInfo st' = previousTouchInfo st"
    "deviceAddress st' = deviceAddress st" "scalingFactor st' = scalingFactor st"
    "flipX st' = flipX st" "flipY st' = flipY st" "swapXY st' = swapXY st"
    "coordinateResolution st' = coordinateResolution st"
    "touchBoundary st' = touchBoundary st"
    by (simp_all add: eq)
qed

lemma busOnly_trace:
  assumes "busOnly st st'"
  shows "\<exists>es. list_all quiet es \<and> trace st' = trace st @ es"
proof -
  from assms obtain es h where "list_all quiet es" "st' = st\<lparr>trace := trace st @ es, hw := h\<rparr>"
    unfolding busOnly_def by blast
  then have "list_all quiet es \<and> trace st' = trace st @ es" by simp
  then show ?thesis ..
qed

lemma i2c_rdwr_busOnly: "quiet msg \<Longrightarrow> busOnly st (stateOf (i2c_rdwr msg st))"
  unfolding busOnly_def
proof (rule exI[of _ "[msg]"])
  assume "quiet msg"
  then show "\<exists>h. list_all quiet [msg] \<and>
      stateOf (i2c_rdwr msg st) = st\<lparr>trace := trace st @ [msg], hw := h\<rparr>"
  proof (cases "hw st")
    case Nil
    then have "stateOf (i2c_rdwr msg st) = st\<lparr>trace := trace st @ [msg], hw := hw st\<rparr>"
      by (simp add: i2c_rdwr_def)
    moreover have "st\<lparr>trace := trace st @ [msg], hw := hw st\<rparr> = st\<lparr>trace := trace st @ [msg]\<rparr>"
      by simp
    ultimately show ?thesis using \<open>quiet msg\<close> by (intro exI[of _ "hw st"]) simp
  next
    case (Cons r rs)
    then have "stateOf (i2c_rdwr msg st) = st\<lparr>trace := trace st @ [msg], hw := rs\<rparr>"
      by (cases r) (simp_all add: i2c_rdwr_def)
    with \<open>quiet msg\<close> show ?thesis by auto
  qed
qed

lemma readI2CList_busOnly:
  assumes "length register = 2"
  shows "busOnly st (stateOf (readI2CList register n st))"
proof (cases "i2c_msg_write (deviceAddress st) register")
  case (Inl e)
  then show ?thesis by (simp add: readI2CList_def busOnly_refl)
next
  case msg: (Inr m)
  then have "m = I2CWrite (deviceAddress st mod 65536) register"
    by (auto simp: i2c_msg_write_def split: if_splits)
  then have q: "quiet m" using assms by auto
  show ?thesis
  proof (cases "i2c_rdwr m st")
    case (Inl a)
    then show ?thesis using i2c_rdwr_busOnly[OF q, of st] msg
      by (cases a) (auto simp: readI2CList_def busOnly_refl)
  next
    case wr: (Inr b)
    obtain v st1 where b: "b = (v, st1)" by (cases b)
    have 1: "busOnly st st1" using i2c_rdwr_busOnly[OF q, of st] wr b by simp
    have 2: "busOnly st1 (stateOf (i2c_rdwr (i2c_msg_read (deviceAddress st1) n) st1))"
      by (rule i2c_rdwr_busOnly) (simp add: i2c_msg_read_def)
    show ?thesis
    proof (cases "i2c_rdwr (i2c_msg_read (deviceAddress st1) n) st1")
      case (Inl a2)
      then show ?thesis using msg wr b busOnly_trans[OF 1 2]
        by (cases a2) (auto simp: readI2CList_def busOnly_refl)
    next
      case (Inr b2)
      then show ?thesis using msg wr b busOnly_trans[OF 1 2]
        by (cases b2) (auto simp: readI2CList_def busOnly_refl)
    qed
  qed
qed

lemma readI2C_busOnly:
  assumes "length register = 2"
  shows "busOnly st (stateOf (readI2C register st))"
  using readI2CList_busOnly[OF assms, of st 1]
  by (auto simp: readI2C_def split: sum.splits)

lemma readValuesLoop_busOnly:
  assumes "\<forall>r\<in>set registers. length r = 2"
  shows "busOnly st (stateOf (readValuesLoop registers acc st))"
  using assms
proof (induction registers arbitrary: acc st)
  case Nil
  then show ?case by (simp add: busOnly_refl)
next
  case (Cons r rs)
  have 1: "busOnly st (stateOf (readI2C r st))" using Cons.prems by (simp add: readI2C_busOnly)
  show ?case
  proof (cases "readI2C r st")
    case (Inl a)
    then show ?thesis using 1 by (cases a) auto
  next
    case (Inr b)
    obtain v st1 where b: "b = (v, st1)" by (cases b)
    have "busOnly st1 (stateOf (readValuesLoop rs (acc @ [v]) st1))"
      using Cons.IH Cons.prems by simp
    then show ?thesis using 1 Inr b busOnly_trans by auto
  qed
qed

lemma readI2CMultiByteValue_busOnly:
  assumes "\<forall>r\<in>set registers. length r = 2"
  shows "busOnly st (stateOf (readI2CMultiByteValue registers st))"
  using readValuesLoop_busOnly[OF assms, of st "[]"]
  by (auto simp: readI2CMultiByteValue_def split: sum.splits)

lemma tpRegisterID_two:
  assumes "map_of tpRegisterID i = Some regs"
  shows "length (reg_track regs) = 2" "\<forall>r\<in>set (reg_x regs). length r = 2"
    "\<forall>r\<in>set (reg_y regs). length r = 2" "\<forall>r\<in>set (reg_size regs). length r = 2"
  using assms by (auto simp: tpRegisterID_def split: if_splits)

lemma busOnly_bind:
  assumes "busOnly st (stateOf r)"
    and "\<And>v st1. r = Inr (v, st1) \<Longrightarrow> busOnly st1 (stateOf (f v st1))"
  shows "busOnly st (stateOf (case r of Inl e \<Rightarrow> Inl e | Inr (v, st1) \<Rightarrow> f v st1))"
proof (cases r)
  case (Inl a)
  then show ?thesis using assms(1) by (cases a) auto
next
  case (Inr b)
  obtain v st1 where b: "b = (v, st1)" by (cases b)
  from assms(2)[of v st1] Inr b have "busOnly st1 (stateOf (f v st1))" by simp
  moreover have "busOnly st st1" using assms(1) Inr b by simp
  ultimately show ?thesis using Inr b busOnly_trans by auto
qed

lemma queryPoint_busOnly: "busOnly st (stateOf (queryPoint i st))"
proof (cases "map_of tpRegisterID i")
  case None
  then show ?thesis by (simp add: queryPoint_def busOnly_refl)
next
  case (Some regs)
  note two = tpRegisterID_two[OF Some]
  show ?thesis
  proof (cases "i \<le> 4")
    case False
    then show ?thesis by (simp add: queryPoint_def busOnly_refl)
  next
    case True
    have "busOnly st (stateOf
      (case readI2CMultiByteValue (reg_x regs) st of
             Inl e \<Rightarrow> Inl e
           | Inr (vx, st1) \<Rightarrow>
              (case readI2CMultiByteValue (reg_y regs) st1 of
                 Inl e \<Rightarrow> Inl e
               | Inr (vy, st2) \<Rightarrow>
                  (case readI2CMultiByteValue (reg_size regs) st2 of
                     Inl e \<Rightarrow> Inl e
                   | Inr (size1, st3) \<Rightarrow>
                      (case readI2C (reg_track regs) st3 of
                         Inl e \<Rightarrow> Inl e
                       | Inr (track, st4) \<Rightarrow>
                           Inr ((fst (axisTransform st2
                              (vx * scalingFactor st1, vy * scalingFactor st2)), snd (axisTransform st2
                              (vx * scalingFactor st1, vy * scalingFactor st2)), size1, track), st4))))))"
      by (intro busOnly_bind readI2CMultiByteValue_busOnly readI2C_busOnly two)
         (simp add: busOnly_refl)
    then show ?thesis unfolding queryPoint_def Let_def using True Some by simp
  qed
qed

lemma queryPoint_range: "queryPoint i st = Inr r \<Longrightarrow> i \<le> 4"
  by (auto simp: queryPoint_def split: if_splits)

lemma length_update_le: "length (AList.update k v al) \<le> Suc (length al)"
  by (induction al) auto

lemma queryTouchBoundary_busOnly: "busOnly st (stateOf (queryTouchBoundary st))"
proof -
  have "busOnly st (stateOf
      (case readI2CMultiByteValue [[0x80, 0x48], [0x80, 0x49]] st of
       Inl e \<Rightarrow> Inl e
     | Inr (v1, st1) \<Rightarrow>
         (case readI2CMultiByteValue [[0x80, 0x4A], [0x80, 0x4B]] st1 of
           Inl e \<Rightarrow> Inl e
         | Inr (v2, st2) \<Rightarrow>
             if swapXY st2 then Inr ((v2 * scalingFactor st2, v1 * scalingFactor st1), st2)
             else Inr ((v1 * scalingFactor st1, v2 * scalingFactor st2), st2))))"
    by (intro busOnly_bind readI2CMultiByteValue_busOnly) (simp_all add: busOnly_refl)
  then show ?thesis unfolding queryTouchBoundary_def Let_def by simp
qed

lemma queryCoordinateResolution_busOnly: "busOnly st (stateOf (queryCoordinateResolution st))"
proof -
  have "busOnly st (stateOf
      (case readI2CMultiByteValue [[0x81, 0x46], [0x81, 0x47]] st of
       Inl e \<Rightarrow> Inl e
     | Inr (v1, st1) \<Rightarrow>
         (case readI2CMultiByteValue [[0x81, 0x48], [0x81, 0x49]] st1 of
           Inl e \<Rightarrow> Inl e
         | Inr (v2, st2) \<Rightarrow>
             if swapXY st2 then Inr ((v2 * scalingFactor st2, v1 * scalingFactor st1), st2)
             else Inr ((v1 * scalingFactor st1, v2 * scalingFactor st2), st2))))"
    by (intro busOnly_bind readI2CMultiByteValue_busOnly) (simp_all add: busOnly_refl)
  then show ?thesis unfolding queryCoordinateResolution_def Let_def by simp
qed

lemma init_empty:
  "touchInfo (finalState (init device scaling fx fy sw replies)) = []
   \<and> previousTouchInfo (finalState (init device scaling fx fy sw replies)) = []"
proof -
  let ?st = "\<lparr>deviceAddress = device, flipX = fx, flipY = fy, swapXY = sw,
               scalingFactor = scaling, touchBoundary = (0, 0),
               coordinateResolution = (0, 0), touchInfo = [], previousTouchInfo = [],
               hw = replies, trace = []\<rparr>"
  show ?thesis
  proof (cases "queryTouchBoundary ?st")
    case (Inl x)
    obtain e s where x: "x = (e, s)" by (cases x)
    have "busOnly ?st s" using queryTouchBoundary_busOnly[of ?st] Inl x by simp
    from busOnly_fields(1,2)[OF this] show ?thesis using Inl x by (simp add: init_def)
  next
    case (Inr r)
    obtain b st1 where r: "r = (b, st1)" by (cases r)
    have 1: "busOnly ?st st1" using queryTouchBoundary_busOnly[of ?st] Inr r by simp
    let ?s1 = "st1\<lparr>touchBoundary := b\<rparr>"
    have e1: "touchInfo ?s1 = []" "previousTouchInfo ?s1 = []"
      using busOnly_fields(1,2)[OF 1] by simp_all
    have 2: "busOnly ?s1 (stateOf (queryCoordinateResolution ?s1))"
      by (rule queryCoordinateResolution_busOnly)
    show ?thesis
    proof (cases "queryCoordinateResolution ?s1")
      case (Inl x)
      obtain e s where x: "x = (e, s)" by (cases x)
      from busOnly_fields(1,2)[OF 2] show ?thesis
        using Inl x e1 \<open>queryTouchBoundary ?st = Inr r\<close> r by (simp add: init_def)
    next
      case Inr2: (Inr r2)
      obtain c st2 where r2: "r2 = (c, st2)" by (cases r2)
      from busOnly_fields(1,2)[OF 2] show ?thesis
        using Inr2 r2 e1 Inr r by (simp add: init_def)
    qed
  qed
qed

lemma status_busOnly: "busOnly st (stateOf (readI2C [0x81, 0x4E] st))"
  by (rule readI2C_busOnly) simp

section \<open>Reading the contacts of one pass\<close>

lemma queryLoop_inv:
  "previousTouchInfo (stateOf (queryLoop is acc st)) = previousTouchInfo st
   \<and> deviceAddress (stateOf (queryLoop is acc st)) = deviceAddress st
   \<and> (distinct (map fst (touchInfo st)) \<longrightarrow>
        distinct (map fst (touchInfo (stateOf (queryLoop is acc st)))))
   \<and> length (touchInfo (stateOf (queryLoop is acc st))) \<le> length (touchInfo st) + pointsRead is
   \<and> (\<exists>es. list_all quiet es \<and> trace (stateOf (queryLoop is acc st)) = trace st @ es)"
proof (induction "is" arbitrary: acc st)
  case Nil
  then show ?case by (simp add: pointsRead_def)
next
  case (Cons i rest)
  show ?case
  proof (cases "queryPoint i st")
    case (Inl a)
    obtain e st1 where a: "a = (e, st1)" by (cases a)
    have b: "busOnly st st1" using queryPoint_busOnly[of st i] Inl a by simp
    have "stateOf (queryLoop (i # rest) acc st) = st1" using Inl a by simp
    then show ?thesis using busOnly_fields[OF b] busOnly_trace[OF b] by simp
  next
    case (Inr b)
    obtain x y s t st1 where r: "b = ((x, y, s, t), st1)" by (cases b) auto
    have bo: "busOnly st st1" using queryPoint_busOnly[of st i] Inr r by simp
    have i4: "i \<le> 4" using Inr queryPoint_range by blast
    let ?st2 = "st1\<lparr>touchInfo := AList.update t
        \<lparr>info_x = x, info_y = y, info_size = s, info_track = t\<rparr> (touchInfo st1)\<rparr>"
    have step: "queryLoop (i # rest) acc st = queryLoop rest (acc @ [t]) ?st2"
      using Inr r by simp
    note IH = Cons.IH[of "acc @ [t]" ?st2]
    from busOnly_trace[OF bo] obtain es where es: "list_all quiet es" "trace st1 = trace st @ es"
      by blast
    from IH obtain fs where fs: "list_all quiet fs"
      "trace (stateOf (queryLoop rest (acc @ [t]) ?st2)) = trace ?st2 @ fs" by auto
    have tr: "\<exists>gs. list_all quiet gs \<and> trace (stateOf (queryLoop rest (acc @ [t]) ?st2)) = trace st @ gs"
      using es fs by (intro exI[of _ "es @ fs"]) simp
    have len: "length (touchInfo ?st2) \<le> Suc (length (touchInfo st))"
      using busOnly_fields(1)[OF bo] length_update_le[of t _ "touchInfo st1"] by simp
    have pr: "pointsRead (i # rest) = Suc (pointsRead rest)" using i4 by (simp add: pointsRead_def)
    have dist: "distinct (map fst (touchInfo st)) \<Longrightarrow> distinct (map fst (touchInfo ?st2))"
      using busOnly_fields(1)[OF bo] by (simp add: distinct_update)
    show ?thesis unfolding step pr using IH tr len dist busOnly_fields(2,3)[OF bo] by auto
  qed
qed

lemma queryLoop_ok:
  "queryLoop is acc st = Inr (tracks, st') \<Longrightarrow>
     length tracks = length acc + length is \<and> list_all (\<lambda>i. i \<le> 4) is
     \<and> set acc \<subseteq> set tracks
     \<and> set (map fst (touchInfo st')) \<subseteq> set (map fst (touchInfo st)) \<union> set tracks"
proof (induction "is" arbitrary: acc st)
  case Nil
  then show ?case by auto
next
  case (Cons i rest)
  then obtain x y s t st1 where q: "queryPoint i st = Inr ((x, y, s, t), st1)"
    by (auto split: sum.splits)
  have i4: "i \<le> 4" using q queryPoint_range by blast
  have bo: "busOnly st st1" using queryPoint_busOnly[of st i] q by simp
  let ?st2 = "st1\<lparr>touchInfo := AList.update t
        \<lparr>info_x = x, info_y = y, info_size = s, info_track = t\<rparr> (touchInfo st1)\<rparr>"
  have "queryLoop rest (acc @ [t]) ?st2 = Inr (tracks, st')" using Cons.prems q by simp
  from Cons.IH[OF this] show ?case using i4 busOnly_fields(1)[OF bo] by (auto simp: dom_update)
qed

lemma keys_fold_delete:
  "map fst (fold AList.delete ks al) = filter (\<lambda>k. k \<notin> set ks) (map fst al)"
proof (induction ks arbitrary: al)
  case Nil
  then show ?case by simp
next
  case (Cons k ks)
  have "map fst (fold AList.delete ks (AList.delete k al)) =
      filter (\<lambda>k'. k' \<notin> set ks) (removeAll k (map fst al))"
    using Cons.IH[of "AList.delete k al"] by (simp add: delete_keys)
  also have "\<dots> = filter (\<lambda>k'. k' \<notin> set (k # ks)) (map fst al)"
    by (induction al) auto
  finally show ?case by simp
qed

lemma removeMissing_keys:
  "map fst (touchInfo (removeMissing tracks st)) =
     filter (\<lambda>k. k \<in> set tracks) (map fst (touchInfo st))"
proof -
  let ?ks = "map fst (touchInfo st)"
  have "filter (\<lambda>k. k \<notin> set (filter (\<lambda>k. k \<notin> set tracks) ?ks)) ?ks
      = filter (\<lambda>k. k \<in> set tracks) ?ks"
    by (rule filter_cong) auto
  moreover have "map fst (touchInfo (removeMissing tracks st)) =
      filter (\<lambda>k. k \<notin> set (filter (\<lambda>k. k \<notin> set tracks) ?ks)) ?ks"
  proof -
    have "touchInfo (removeMissing tracks st) =
        fold AList.delete (filter (\<lambda>k. k \<notin> set tracks) ?ks) (touchInfo st)"
      by (simp add: removeMissing_def Let_def)
    then show ?thesis by (simp only: keys_fold_delete)
  qed
  ultimately show ?thesis by simp
qed

lemma removeMissing_fields [simp]:
  "previousTouchInfo (removeMissing tracks st) = previousTouchInfo st"
  "trace (removeMissing tracks st) = trace st"
  "hw (removeMissing tracks st) = hw st"
  "deviceAddress (removeMissing tracks st) = deviceAddress st"
  by (simp_all add: removeMissing_def Let_def)

lemma removeMissing_bound:
  assumes "distinct (map fst (touchInfo st))"
  shows "distinct (map fst (touchInfo (removeMissing tracks st)))"
    and "length (touchInfo (removeMissing tracks st)) \<le> length tracks"
proof -
  let ?ks = "map fst (touchInfo (removeMissing tracks st))"
  show d: "distinct ?ks" using assms by (simp add: removeMissing_keys)
  have "set ?ks \<subseteq> set tracks" by (auto simp: removeMissing_keys)
  then have "card (set ?ks) \<le> card (set tracks)" by (simp add: card_mono)
  also have "\<dots> \<le> length tracks" by (rule card_length)
  finally have "length ?ks \<le> length tracks" using distinct_card[OF d] by linarith
  then show "length (touchInfo (removeMissing tracks st)) \<le> length tracks" by simp
qed

lemma pointsRead_upt: "pointsRead [0..<n] \<le> 5"
proof -
  let ?xs = "filter (\<lambda>i. i \<le> 4) [0..<n]"
  have d: "distinct ?xs" by simp
  have "set ?xs \<subseteq> {0..4}" by auto
  then have "card (set ?xs) \<le> card {0..4::nat}" by (intro card_mono) auto
  then have "length ?xs \<le> 5" using distinct_card[OF d] by simp
  then show ?thesis by (simp add: pointsRead_def)
qed

lemma upt_all_le4:
  assumes "list_all (\<lambda>i. i \<le> 4) [0..<n]"
  shows "n \<le> 5"
proof (rule ccontr)
  assume "\<not> n \<le> 5"
  then have "5 \<in> set [0..<n]" by simp
  with assms have "(5::nat) \<le> 4" unfolding list_all_iff by blast
  then show False by simp
qed

section \<open>The polling loop\<close>

text \<open>
  The five ways through the body of the loop.
\<close>

lemma readLoopBody_status_fail:
  "readI2C [0x81, 0x4E] st = Inl x \<Longrightarrow> readLoopBody order st = Inl x"
  by (simp add: readLoopBody_def)

lemma readLoopBody_idle:
  "readI2C [0x81, 0x4E] st = Inr (sb, st1) \<Longrightarrow> \<not> bufferStatus (decodeStatus sb) \<Longrightarrow>
     readLoopBody order st = Inr (sleep st1)"
  by (simp add: readLoopBody_def)

lemma readLoopBody_query_fail:
  "readI2C [0x81, 0x4E] st = Inr (sb, st1) \<Longrightarrow> bufferStatus (decodeStatus sb) \<Longrightarrow>
   touchPoints (decodeStatus sb) \<ge> 1 \<Longrightarrow>
   queryLoop [0..<nat (touchPoints (decodeStatus sb))] [] st1 = Inl x \<Longrightarrow>
     readLoopBody order st = Inl x"
  by (simp add: readLoopBody_def)

lemma readLoopBody_points:
  "readI2C [0x81, 0x4E] st = Inr (sb, st1) \<Longrightarrow> bufferStatus (decodeStatus sb) \<Longrightarrow>
   touchPoints (decodeStatus sb) \<ge> 1 \<Longrightarrow>
   queryLoop [0..<nat (touchPoints (decodeStatus sb))] [] st1 = Inr (tracks, st2) \<Longrightarrow>
     readLoopBody order st = clearAndSleep (diffed order (removeMissing tracks st2))"
  by (simp add: readLoopBody_def eventCallback_emit clearAndSleep_def diffed_def)

lemma readLoopBody_zero:
  "readI2C [0x81, 0x4E] st = Inr (sb, st1) \<Longrightarrow> bufferStatus (decodeStatus sb) \<Longrightarrow>
   \<not> touchPoints (decodeStatus sb) \<ge> 1 \<Longrightarrow>
     readLoopBody order st = clearAndSleep (diffed order (st1\<lparr>touchInfo := []\<rparr>))"
  by (simp add: readLoopBody_def eventCallback_emit clearAndSleep_def diffed_def)

lemma diffed_fields [simp]:
  "touchInfo (diffed order st) = touchInfo st"
  "previousTouchInfo (diffed order st) = touchInfo st"
  "trace (diffed order st) = trace st @ callbackEvents order st"
  "deviceAddress (diffed order st) = deviceAddress st"
  by (simp_all add: diffed_def)

lemma sleep_fields [simp]:
  "touchInfo (sleep st) = touchInfo st"
  "previousTouchInfo (sleep st) = previousTouchInfo st"
  "trace (sleep st) = trace st @ [Sleep]"
  by (simp_all add: sleep_def)

lemma clearAndSleep_fields:
  "touchInfo (finalState (clearAndSleep st)) = touchInfo st"
  "previousTouchInfo (finalState (clearAndSleep st)) = previousTouchInfo st"
  by (auto simp: clearAndSleep_def writeI2C_def i2c_rdwr_def sleep_def Let_def i2c_msg_write_def
      split: list.splits busReply.splits)

lemma clearAndSleep_ok:
  "clearAndSleep st = Inr st' \<Longrightarrow>
     trace st' = trace st @ [I2CWrite (deviceAddress st mod 65536) [0x81, 0x4E, 0], Sleep]"
  by (auto simp: clearAndSleep_def writeI2C_def i2c_rdwr_def sleep_def Let_def i2c_msg_write_def
      split: list.splits busReply.splits)

subsection \<open>The size of the dictionaries\<close>

lemma readLoopBody_bound:
  assumes "touchBound st"
  shows "case readLoopBody order st of
           Inl (e, st') \<Rightarrow> length (touchInfo st') \<le> 10 \<and> length (previousTouchInfo st') \<le> 5
         | Inr st' \<Rightarrow> touchBound st'"
proof (cases "readI2C [0x81, 0x4E] st")
  case (Inl x)
  obtain e s where x: "x = (e, s)" by (cases x)
  have "busOnly st s" using status_busOnly[of st] Inl x by simp
  from busOnly_fields(1,2)[OF this] show ?thesis
    using assms readLoopBody_status_fail[OF Inl] x by (simp add: touchBound_def)
next
  case (Inr r)
  obtain sb st1 where r: "r = (sb, st1)" by (cases r)
  note rd = Inr[unfolded r]
  have "busOnly st st1" using status_busOnly[of st] rd by simp
  note f1 = busOnly_fields(1,2)[OF this]
  show ?thesis
  proof (cases "bufferStatus (decodeStatus sb)")
    case False
    then show ?thesis using readLoopBody_idle[OF rd] assms f1 by (simp add: touchBound_def)
  next
    case True
    show ?thesis
    proof (cases "touchPoints (decodeStatus sb) \<ge> 1")
      case False
      let ?s = "diffed order (st1\<lparr>touchInfo := []\<rparr>)"
      have body: "readLoopBody order st = clearAndSleep ?s" by (rule readLoopBody_zero[OF rd True False])
      have "touchInfo (finalState (clearAndSleep ?s)) = []"
        "previousTouchInfo (finalState (clearAndSleep ?s)) = []"
        by (simp_all add: clearAndSleep_fields)
      then show ?thesis unfolding body
        by (cases "clearAndSleep ?s") (auto simp: touchBound_def)
    next
      case tp: True
      let ?n = "nat (touchPoints (decodeStatus sb))"
      note inv = queryLoop_inv[of "[0..<?n]" "[]" st1]
      show ?thesis
      proof (cases "queryLoop [0..<?n] [] st1")
        case (Inl x)
        obtain e s where x: "x = (e, s)" by (cases x)
        have "length (touchInfo s) \<le> length (touchInfo st1) + pointsRead [0..<?n]"
          "previousTouchInfo s = previousTouchInfo st1"
          using inv Inl x by simp_all
        then show ?thesis
          using readLoopBody_query_fail[OF rd True tp Inl] x pointsRead_upt[of ?n] assms f1
          by (simp add: touchBound_def)
      next
        case (Inr q)
        obtain tracks st2 where q: "q = (tracks, st2)" by (cases q)
        note ql = Inr[unfolded q]
        from queryLoop_ok[OF ql] have "length tracks = ?n" "list_all (\<lambda>i. i \<le> 4) [0..<?n]"
          by simp_all
        then have len: "length tracks \<le> 5" using upt_all_le4 by auto
        have d2: "distinct (map fst (touchInfo st2))" using inv ql assms f1
          by (simp add: touchBound_def)
        let ?p = "removeMissing tracks st2"
        have p: "distinct (map fst (touchInfo ?p))" "length (touchInfo ?p) \<le> 5"
          using removeMissing_bound[OF d2, of tracks] len by simp_all
        have body: "readLoopBody order st = clearAndSleep (diffed order ?p)"
          by (rule readLoopBody_points[OF rd True tp ql])
        have "touchInfo (finalState (clearAndSleep (diffed order ?p))) = touchInfo ?p"
          "previousTouchInfo (finalState (clearAndSleep (diffed order ?p))) = touchInfo ?p"
          by (simp_all add: clearAndSleep_fields)
        then show ?thesis unfolding body using p
          by (cases "clearAndSleep (diffed order ?p)") (auto simp: touchBound_def)
      qed
    qed
  qed
qed

lemma readLoop_bound:
  assumes "touchBound st"
  shows "case readLoop order n st of
           Inl (e, st') \<Rightarrow> length (touchInfo st') \<le> 10 \<and> length (previousTouchInfo st') \<le> 5
         | Inr st' \<Rightarrow> touchBound st'"
  using assms
proof (induction n arbitrary: st)
  case 0
  then show ?case by simp
next
  case (Suc n)
  show ?case
  proof (cases "readLoopBody order st")
    case (Inl x)
    then show ?thesis using readLoopBody_bound[OF Suc.prems, of order] by simp
  next
    case (Inr st1)
    then have "touchBound st1" using readLoopBody_bound[OF Suc.prems, of order] by simp
    from Suc.IH[OF this] show ?thesis using Inr by simp
  qed
qed

text \<open>
  Claim C3 does not hold as stated: while a pass reads its contacts, \<open>__touchInfo\<close>
  still holds the tracks of the pass before, which are deleted only after the last
  read. In a run of two passes that both complete, \<open>__touchInfo\<close> holds ten tracks when
  the \<open>for\<close> loop of the second pass is through; and with a count of six, the driver
  holds ten tracks when the assertion of \<open>__queryPoint\<close> ends it.
\<close>

theorem touch_state_exceeds_five:
  "raised (GT911 0x5D 1 False False False ascending fiveThenFive 2) = None
   \<and> length (touchInfo (stateOf (queryLoop [0..<5] []
        (stateOf (readI2C [0x81, 0x4E]
          (finalState (GT911 0x5D 1 False False False ascending fiveThenFive 1))))))) = 10
   \<and> raised (GT911 0x5D 1 False False False ascending tenTracks 2) = Some AssertionError
   \<and> length (touchInfo (finalState (GT911 0x5D 1 False False False ascending tenTracks 2))) = 10
   \<and> length (previousTouchInfo (finalState (GT911 0x5D 1 False False False ascending tenTracks 2))) = 5"
  by code_simp

text \<open>
  Claim C3, amended. Whatever the controller answers, after any number of completed
  passes both dictionaries hold at most 5 entries; and when an exception ends the
  driver, \<open>__previousTouchInfo\<close> holds at most 5 and \<open>__touchInfo\<close> at most 10.
\<close>

theorem touch_state_bound:
  "case GT911 device scaling fx fy sw order replies n of
     Inl (e, st) \<Rightarrow> length (touchInfo st) \<le> 10 \<and> length (previousTouchInfo st) \<le> 5
   | Inr st \<Rightarrow> length (touchInfo st) \<le> 5 \<and> length (previousTouchInfo st) \<le> 5"
proof (cases "init device scaling fx fy sw replies")
  case (Inl x)
  obtain e s where x: "x = (e, s)" by (cases x)
  then show ?thesis using init_empty[of device scaling fx fy sw replies] Inl
    by (simp add: GT911_def)
next
  case (Inr st0)
  then have "touchBound st0" using init_empty[of device scaling fx fy sw replies]
    by (simp add: touchBound_def)
  from readLoop_bound[OF this, of order n] show ?thesis using Inr
    by (auto simp: GT911_def touchBound_def split: sum.splits)
qed

theorem touch_state_bound_witness:
  "raised (GT911 0x5D 1 False False False ascending tenTracks 1) = None
   \<and> length (touchInfo (finalState (GT911 0x5D 1 False False False ascending tenTracks 1))) = 5
   \<and> length (touchInfo (finalState (GT911 0x5D 1 False False False ascending tenTracks 1))) \<le> 5
   \<and> length (previousTouchInfo (finalState (GT911 0x5D 1 False False False ascending tenTracks 1))) \<le> 5"
proof -
  have a: "raised (GT911 0x5D 1 False False False ascending tenTracks 1) = None
   \<and> length (touchInfo (finalState (GT911 0x5D 1 False False False ascending tenTracks 1))) = 5"
    by code_simp
  then obtain st where st: "GT911 0x5D 1 False False False ascending tenTracks 1 = Inr st"
    by (cases "GT911 0x5D 1 False False False ascending tenTracks 1") auto
  show ?thesis using a touch_state_bound
      [where device="0x5D" and scaling=1 and fx=False and fy=False and sw=False
         and order=ascending and replies=tenTracks and n=1] st by simp
qed

subsection \<open>A failed transaction\<close>







subsection \<open>Clearing the buffer\<close>

lemma quiet_not_clear: "list_all quiet es \<Longrightarrow> filter isClear es = []"
proof (induction es)
  case Nil
  then show ?case by simp
next
  case (Cons e es)
  then show ?case by (cases e) auto
qed

lemma callbackEvents_ui: "list_all uiEvent (callbackEvents order st)"
  by (simp add: callbackEvents_def list_all_iff synIf_def newTrackEvents_def
      updateTrackEvents_def endTrackEvents_def) auto

lemma ui_not_clear: "list_all uiEvent es \<Longrightarrow> filter isClear es = []"
proof (induction es)
  case Nil
  then show ?case by simp
next
  case (Cons e es)
  then show ?case by (cases e) auto
qed

lemma clears_quiet:
  "trace st' = trace st @ es \<Longrightarrow> list_all quiet es \<Longrightarrow> clears st' = clears st"
  by (simp add: clears_def quiet_not_clear)

lemma clears_ui:
  "trace st' = trace st @ es \<Longrightarrow> list_all uiEvent es \<Longrightarrow> clears st' = clears st"
  by (simp add: clears_def ui_not_clear)

lemma clears_busOnly: "busOnly st st' \<Longrightarrow> clears st' = clears st"
  using busOnly_trace clears_quiet by blast

lemma clears_diffed: "clears (diffed order st) = clears st"
  by (rule clears_ui[of _ _ "callbackEvents order st"]) (simp_all add: callbackEvents_ui)

lemma clears_clearAndSleep: "clearAndSleep st = Inr st' \<Longrightarrow> clears st' = Suc (clears st)"
  using clearAndSleep_ok[of st st'] by (simp add: clears_def)

text \<open>A pass that a failed contact query ends has written no clear.\<close>

lemma failed_query_no_clear:
  assumes "readI2C [0x81, 0x4E] st = Inr (statusByte, st1)"
    and "queryLoop is [] st1 = Inl (e, st2)"
  shows "clears st2 = clears st"
proof -
  have "busOnly st st1" using status_busOnly[of st] assms(1) by simp
  then have 1: "clears st1 = clears st" by (rule clears_busOnly)
  from queryLoop_inv[of "is" "[]" st1] assms(2)
  obtain es where "list_all quiet es" "trace st2 = trace st1 @ es" by auto
  then have "clears st2 = clears st1" using clears_quiet by blast
  with 1 show ?thesis by simp
qed

text \<open>
  Claim C5 does not hold as stated: with the buffer bit set and a count of six, the
  assertion of \<open>__queryPoint\<close> ends the pass before the clear.
\<close>

theorem buffer_ready_without_clear:
  "bufferStatus (decodeStatus 0x86)
   \<and> readI2C [0x81, 0x4E] sixPoints = Inr (0x86, stateOf (readI2C [0x81, 0x4E] sixPoints))
   \<and> raised (readLoopBody ascending sixPoints) = Some AssertionError
   \<and> clears (finalState (readLoopBody ascending sixPoints)) = 0"
  by code_simp

text \<open>
  Claim C5, amended. A pass that runs to its end has written zero to the status
  register once if the buffer bit of its status byte was set, whatever the count, and
  not at all otherwise.
\<close>

theorem clear_iff_buffer_ready:
  assumes "readLoopBody order st = Inr st'"
  shows "\<exists>statusByte st1. readI2C [0x81, 0x4E] st = Inr (statusByte, st1)
     \<and> clears st' = clears st + (if bufferStatus (decodeStatus statusByte) then 1 else 0)"
proof (cases "readI2C [0x81, 0x4E] st")
  case (Inl x)
  then show ?thesis using assms readLoopBody_status_fail[OF Inl] by simp
next
  case (Inr r)
  obtain sb st1 where r: "r = (sb, st1)" by (cases r)
  note rd = Inr[unfolded r]
  have "busOnly st st1" using status_busOnly[of st] rd by simp
  then have c1: "clears st1 = clears st" by (rule clears_busOnly)
  have "clears st' = clears st + (if bufferStatus (decodeStatus sb) then 1 else 0)"
  proof (cases "bufferStatus (decodeStatus sb)")
    case False
    then have "st' = sleep st1" using readLoopBody_idle[OF rd] assms by simp
    then show ?thesis using False c1 by (simp add: clears_def)
  next
    case True
    show ?thesis
    proof (cases "touchPoints (decodeStatus sb) \<ge> 1")
      case False
      let ?s = "st1\<lparr>touchInfo := []\<rparr>"
      have "clearAndSleep (diffed order ?s) = Inr st'"
        using readLoopBody_zero[OF rd True False] assms by simp
      from clears_clearAndSleep[OF this] have "clears st' = Suc (clears ?s)"
        by (simp add: clears_diffed)
      then show ?thesis using True c1 by (simp add: clears_def)
    next
      case tp: True
      let ?n = "nat (touchPoints (decodeStatus sb))"
      show ?thesis
      proof (cases "queryLoop [0..<?n] [] st1")
        case (Inl x)
        then show ?thesis using readLoopBody_query_fail[OF rd True tp Inl] assms by simp
      next
        case (Inr q)
        obtain tracks st2 where q: "q = (tracks, st2)" by (cases q)
        note ql = Inr[unfolded q]
        from queryLoop_inv[of "[0..<?n]" "[]" st1] ql
        obtain es where "list_all quiet es" "trace st2 = trace st1 @ es" by auto
        then have c2: "clears st2 = clears st1" using clears_quiet by blast
        let ?p = "removeMissing tracks st2"
        have c3: "clears ?p = clears st2" by (simp add: clears_def)
        have "clearAndSleep (diffed order ?p) = Inr st'"
          using readLoopBody_points[OF rd True tp ql] assms by simp
        from clears_clearAndSleep[OF this] have "clears st' = Suc (clears ?p)"
          by (simp add: clears_diffed)
        then show ?thesis using True c1 c2 c3 by simp
      qed
    qed
  qed
  then show ?thesis using rd by blast
qed

lemma releasedAll_run:
  "readLoopBody ascending releasedAll = Inr (finalState (readLoopBody ascending releasedAll))
   \<and> readI2C [0x81, 0x4E] releasedAll = Inr (0x80, stateOf (readI2C [0x81, 0x4E] releasedAll))
   \<and> clears releasedAll = 0"
  by code_simp

lemma nothingNew_run:
  "readLoopBody ascending nothingNew = Inr (finalState (readLoopBody ascending nothingNew))
   \<and> readI2C [0x81, 0x4E] nothingNew = Inr (0x00, stateOf (readI2C [0x81, 0x4E] nothingNew))
   \<and> clears nothingNew = 0"
  by code_simp

theorem clear_iff_buffer_ready_witness:
  "raised (readLoopBody ascending releasedAll) = None
   \<and> touchPoints (decodeStatus 0x80) = 0
   \<and> clears (finalState (readLoopBody ascending releasedAll)) = 1
   \<and> raised (readLoopBody ascending nothingNew) = None
   \<and> clears (finalState (readLoopBody ascending nothingNew)) = 0"
proof -
  from clear_iff_buffer_ready[OF conjunct1[OF releasedAll_run]]
  obtain sb st1 where 1: "readI2C [0x81, 0x4E] releasedAll = Inr (sb, st1)"
    "clears (finalState (readLoopBody ascending releasedAll)) =
       clears releasedAll + (if bufferStatus (decodeStatus sb) then 1 else 0)"
    by blast
  from 1(1) releasedAll_run have "sb = 0x80" by simp
  with 1(2) releasedAll_run have a: "clears (finalState (readLoopBody ascending releasedAll)) = 1"
    by (simp add: decodeStatus_def)
  from clear_iff_buffer_ready[OF conjunct1[OF nothingNew_run]]
  obtain sb' st1' where 2: "readI2C [0x81, 0x4E] nothingNew = Inr (sb', st1')"
    "clears (finalState (readLoopBody ascending nothingNew)) =
       clears nothingNew + (if bufferStatus (decodeStatus sb') then 1 else 0)"
    by blast
  from 2(1) nothingNew_run have "sb' = 0x00" by simp
  with 2(2) nothingNew_run have b: "clears (finalState (readLoopBody ascending nothingNew)) = 0"
    by (simp add: decodeStatus_def)
  have c: "raised (readLoopBody ascending releasedAll) = None" "raised (readLoopBody ascending nothingNew) = None"
    using releasedAll_run nothingNew_run by (metis raised.simps(2))+
  show ?thesis using a b c by (simp add: decodeStatus_def)
qed

end
